theory Spec2Isabelle
  imports Main "HOL-Library.Char_ord" "HOL-Library.List_Lexorder" "HOL-Library.AList"
begin

section \<open>Data model\<close>

text \<open>
  The Go package keeps its nodes behind pointers: \<^verbatim>\<open>DAG[T].nodes\<close> is a
  \<^verbatim>\<open>map[T]*Node[T]\<close>, and each \<^verbatim>\<open>Node[T]\<close> holds two pointer sets
  \<^verbatim>\<open>map[*Node[T]]struct{}\<close>. Two nodes with equal data can be different objects, and
  every mutation of an adjacency set is seen through every alias, so the model has an
  explicit store: an address is an index into the list of all \<^verbatim>\<open>Node\<close> objects allocated
  so far, and \<^verbatim>\<open>NewNode\<close> allocates at the end of that list.

  The record \<open>node\<close> is the struct \<^verbatim>\<open>Node[T]\<close>. The record \<open>dag\<close> is the state the
  methods of \<^verbatim>\<open>*DAG[T]\<close> work on: the store \<open>heap\<close> and the field \<^verbatim>\<open>nodes\<close> of the
  \<^verbatim>\<open>DAG\<close> struct. A method that mutates takes the state and returns the new one.

  A Go map used as a set is a duplicate-free list here (insertion keeps it duplicate-free,
  deletion removes the element); a Go map from keys to values is an association list read
  through \<open>map_of\<close> and written through \<open>AList.update\<close> and \<open>AList.delete\<close>.
  Go leaves the order of \<^verbatim>\<open>range\<close> over a map open. Where the source ranges over a map
  and the order cannot change the outcome, the model ranges over the list; in
  \<^verbatim>\<open>Traverse\<close>, where it can, the order is an argument.
\<close>

type_synonym addr = nat

text \<open>
  The key type \<^verbatim>\<open>T\<close> is only \<^verbatim>\<open>comparable\<close>, and a Go map finds a key with Go's
  \<^verbatim>\<open>==\<close>. On integers, strings and pointers \<^verbatim>\<open>==\<close> is equality of values, and the
  association list is read through \<open>map_of\<close>. On a key that holds a floating-point NaN
  \<^verbatim>\<open>==\<close> is false even of the key and itself, so no lookup ever finds it and every
  assignment adds an entry. \<open>map_get\<close> and \<open>map_set\<close> are the lookup \<^verbatim>\<open>m[k]\<close> and the
  assignment \<^verbatim>\<open>m[k] = v\<close> of a Go map with \<^verbatim>\<open>==\<close> as the parameter \<open>eq\<close>.
\<close>

definition map_get :: "('k \<Rightarrow> 'k \<Rightarrow> bool) \<Rightarrow> ('k \<times> 'v) list \<Rightarrow> 'k \<Rightarrow> 'v option" where
  "map_get eq m k = map_option snd (find (\<lambda>(k', _). eq k' k) m)"

definition map_set ::
  "('k \<Rightarrow> 'k \<Rightarrow> bool) \<Rightarrow> ('k \<times> 'v) list \<Rightarrow> 'k \<Rightarrow> 'v \<Rightarrow> ('k \<times> 'v) list" where
  "map_set eq m k v =
     (if \<exists>(k', _) \<in> set m. eq k' k
      then map (\<lambda>(k', v'). if eq k' k then (k', v) else (k', v')) m
      else m @ [(k, v)])"

lemma map_get_equality: "map_get (=) m k = map_of m k"
  by (induction m) (auto simp: map_get_def)

lemma find_last_new: "\<forall>y \<in> set xs. \<not> P y \<Longrightarrow> P x \<Longrightarrow> find P (xs @ [x]) = Some x"
  by (induction xs) auto

lemma map_set_fresh: "map_get eq m k = None \<Longrightarrow> map_set eq m k v = m @ [(k, v)]"
  by (auto simp: map_get_def map_set_def find_None_iff)

lemma update_fresh: "map_of al k = None \<Longrightarrow> AList.update k v al = al @ [(k, v)]"
  by (induction al) (auto split: if_splits)

text \<open>
  A \<^verbatim>\<open>float64\<close> key, as far as \<^verbatim>\<open>==\<close> sees it: the numbers, equal when they are the
  same number, and NaN, equal to nothing.
\<close>

datatype float64 = Number int | NaN

fun float64_eq :: "float64 \<Rightarrow> float64 \<Rightarrow> bool" where
  "float64_eq (Number a) (Number b) = (a = b)"
| "float64_eq _ _ = False"

record 'a node =
  data :: 'a
  parents :: "addr list"
  children :: "addr list"

record 'a dag =
  heap :: "'a node list"
  nodes :: "('a \<times> addr) list"

datatype error = ErrCycleDetected

section \<open>Node\<close>

definition NewNode :: "'a \<Rightarrow> 'a node" where
  "NewNode v = \<lparr>data = v, parents = [], children = []\<rparr>"

text \<open>
  Reading the adjacency of an address. A Go pointer always points to a live object; the
  model gives an address outside the store no neighbours, which keeps every traversal
  total.
\<close>

definition parents_at :: "'a node list \<Rightarrow> addr \<Rightarrow> addr list" where
  "parents_at h n = (if n < length h then parents (h ! n) else [])"

definition children_at :: "'a node list \<Rightarrow> addr \<Rightarrow> addr list" where
  "children_at h n = (if n < length h then children (h ! n) else [])"

text \<open>
  \<^verbatim>\<open>Parents()\<close> and \<^verbatim>\<open>Children()\<close> copy the set into a slice and sort it by
  \<^verbatim>\<open>fmt.Sprintf("%v", data)\<close>. The formatting of the type parameter \<^verbatim>\<open>T\<close> is the
  parameter \<open>fmtv\<close>; Go compares strings bytewise, which is the lexicographic order on
  \<open>char list\<close>. For neighbours that print alike Go fixes no order (\<^verbatim>\<open>sort.Slice\<close> is not
  stable and the map is ranged over in no fixed order); here they keep their list order.
\<close>

definition Parents :: "('a \<Rightarrow> string) \<Rightarrow> 'a node list \<Rightarrow> addr \<Rightarrow> addr list" where
  "Parents fmtv h n = sort_key (\<lambda>p. fmtv (data (h ! p))) (parents_at h n)"

definition Children :: "('a \<Rightarrow> string) \<Rightarrow> 'a node list \<Rightarrow> addr \<Rightarrow> addr list" where
  "Children fmtv h n = sort_key (\<lambda>c. fmtv (data (h ! c))) (children_at h n)"

definition addParent :: "addr \<Rightarrow> addr \<Rightarrow> 'a node list \<Rightarrow> 'a node list" where
  "addParent n parent h = h[n := (h ! n)\<lparr>parents := List.insert parent (parents (h ! n))\<rparr>]"

definition addChild :: "addr \<Rightarrow> addr \<Rightarrow> 'a node list \<Rightarrow> 'a node list" where
  "addChild n child h = h[n := (h ! n)\<lparr>children := List.insert child (children (h ! n))\<rparr>]"

text \<open>\<^verbatim>\<open>delete(n.parents, parent)\<close> and \<^verbatim>\<open>delete(n.children, child)\<close>.\<close>

definition deleteParent :: "addr \<Rightarrow> addr \<Rightarrow> 'a node list \<Rightarrow> 'a node list" where
  "deleteParent n parent h = h[n := (h ! n)\<lparr>parents := removeAll parent (parents (h ! n))\<rparr>]"

definition deleteChild :: "addr \<Rightarrow> addr \<Rightarrow> 'a node list \<Rightarrow> 'a node list" where
  "deleteChild n child h = h[n := (h ! n)\<lparr>children := removeAll child (children (h ! n))\<rparr>]"

text \<open>
  Every address that occurs in some parent set (child set) of the store: the finite
  universe in which the searches below run.
\<close>

definition all_parents :: "'a node list \<Rightarrow> addr set" where
  "all_parents h = (\<Union>n \<in> set h. set (parents n))"

definition all_children :: "'a node list \<Rightarrow> addr set" where
  "all_children h = (\<Union>n \<in> set h. set (children n))"

lemma finite_all_parents: "finite (all_parents h)"
  by (simp add: all_parents_def)

lemma finite_all_children: "finite (all_children h)"
  by (simp add: all_children_def)

lemma set_Parents: "set (Parents fmtv h n) = set (parents_at h n)"
  by (simp add: Parents_def)

lemma set_Children: "set (Children fmtv h n) = set (children_at h n)"
  by (simp add: Children_def)

lemma Parents_sub: "set (Parents fmtv h n) \<subseteq> all_parents h"
  by (auto simp: Parents_def parents_at_def all_parents_def intro: nth_mem)

lemma Children_sub: "set (Children fmtv h n) \<subseteq> all_children h"
  by (auto simp: Children_def children_at_def all_children_def intro: nth_mem)

text \<open>Arithmetic of the termination measures shared by the searches.\<close>

lemma card_unvisited_call:
  assumes "finite A" and "p \<notin> visited"
  shows "card (A - insert p visited) < card ((A \<union> set (p # ps)) - visited)"
proof -
  have "A - insert p visited \<subset> (A \<union> set (p # ps)) - visited"
    using assms(2) by auto
  then show ?thesis
    by (intro psubset_card_mono) (simp_all add: assms(1))
qed

lemma card_unvisited_next:
  assumes "finite A" and "visited \<subseteq> y"
  shows "card ((A \<union> set ps) - y) \<le> card ((A \<union> set (p # ps)) - visited)"
proof -
  have "(A \<union> set ps) - y \<subseteq> (A \<union> set (p # ps)) - visited"
    using assms(2) by auto
  then show ?thesis
    by (intro card_mono) (simp_all add: assms(1))
qed

subsection \<open>hasAncestor\<close>

text \<open>
  The closure \<^verbatim>\<open>visit\<close> of \<^verbatim>\<open>hasAncestor\<close> and its \<^verbatim>\<open>for\<close> loop over
  \<^verbatim>\<open>node.Parents()\<close>. The captured map \<^verbatim>\<open>visited\<close> is threaded through and returned
  with the result.
\<close>

function hasAncestor_visit ::
    "('a \<Rightarrow> string) \<Rightarrow> 'a node list \<Rightarrow> addr \<Rightarrow> addr \<Rightarrow> addr set \<Rightarrow> bool \<times> addr set"
  and hasAncestor_loop ::
    "('a \<Rightarrow> string) \<Rightarrow> 'a node list \<Rightarrow> addr \<Rightarrow> addr list \<Rightarrow> addr set \<Rightarrow> bool \<times> addr set"
where
  "hasAncestor_visit fmtv h ancestor n visited =
     (if n = ancestor then (True, visited)
      else hasAncestor_loop fmtv h ancestor (Parents fmtv h n) (insert n visited))"
| "hasAncestor_loop fmtv h ancestor [] visited = (False, visited)"
| "hasAncestor_loop fmtv h ancestor (p # ps) visited =
     (if p \<notin> visited then
        (case hasAncestor_visit fmtv h ancestor p visited of
           (True, visited') \<Rightarrow> (True, visited')
         | (False, visited') \<Rightarrow> hasAncestor_loop fmtv h ancestor ps visited')
      else hasAncestor_loop fmtv h ancestor ps visited)"
  by pat_completeness auto

lemma hasAncestor_mono_dom:
  "hasAncestor_visit_hasAncestor_loop_dom (Inl (fmtv, h, anc, n, visited)) \<longrightarrow>
      visited \<subseteq> snd (hasAncestor_visit fmtv h anc n visited)"
  "hasAncestor_visit_hasAncestor_loop_dom (Inr (fmtv, h, anc, ps, visited)) \<longrightarrow>
      visited \<subseteq> snd (hasAncestor_loop fmtv h anc ps visited)"
proof -
  have a: "hasAncestor_visit_hasAncestor_loop_dom (Inl (fmtv, h, anc, n, visited)) \<Longrightarrow>
      visited \<subseteq> snd (hasAncestor_visit fmtv h anc n visited)"
   and b: "hasAncestor_visit_hasAncestor_loop_dom (Inr (fmtv, h, anc, ps, visited)) \<Longrightarrow>
      visited \<subseteq> snd (hasAncestor_loop fmtv h anc ps visited)"
  proof (induction rule: hasAncestor_visit_hasAncestor_loop.pinduct)
    case (1 fmtv h anc n visited)
    then show ?case by (auto simp: hasAncestor_visit.psimps)
  next
    case (2 fmtv h anc visited)
    then show ?case by (simp add: hasAncestor_loop.psimps)
  next
    case (3 fmtv h anc p ps visited)
    show ?case
    proof (cases "p \<in> visited")
      case True
      with 3 show ?thesis by (simp add: hasAncestor_loop.psimps)
    next
      case False
      obtain x y where xy: "hasAncestor_visit fmtv h anc p visited = (x, y)"
        by (cases "hasAncestor_visit fmtv h anc p visited")
      with 3 False have vy: "visited \<subseteq> y" by simp
      show ?thesis
      proof (cases x)
        case True
        with 3(1) False xy vy show ?thesis by (simp add: hasAncestor_loop.psimps)
      next
        case fx: False
        with 3(3)[OF False xy[symmetric]]
        have "y \<subseteq> snd (hasAncestor_loop fmtv h anc ps y)" by simp
        with 3(1) False xy vy fx show ?thesis
          by (auto simp add: hasAncestor_loop.psimps)
      qed
    qed
  qed
  show "hasAncestor_visit_hasAncestor_loop_dom (Inl (fmtv, h, anc, n, visited)) \<longrightarrow>
      visited \<subseteq> snd (hasAncestor_visit fmtv h anc n visited)" using a by blast
  show "hasAncestor_visit_hasAncestor_loop_dom (Inr (fmtv, h, anc, ps, visited)) \<longrightarrow>
      visited \<subseteq> snd (hasAncestor_loop fmtv h anc ps visited)" using b by blast
qed

definition up_measure ::
  "(('a \<Rightarrow> string) \<times> 'a node list \<times> addr \<times> addr \<times> addr set) +
   (('a \<Rightarrow> string) \<times> 'a node list \<times> addr \<times> addr list \<times> addr set) \<Rightarrow> nat \<times> nat" where
  "up_measure x = (case x of
      Inl (fmtv, h, anc, n, visited) \<Rightarrow>
        (card (all_parents h - insert n visited), Suc (length (Parents fmtv h n)))
    | Inr (fmtv, h, anc, ps, visited) \<Rightarrow>
        (card ((all_parents h \<union> set ps) - visited), length ps))"

abbreviation up_rel where
  "up_rel \<equiv> inv_image (less_than <*lex*> less_than) up_measure"

lemma up_rel_visit:
  "(Inr (fmtv, h, anc, Parents fmtv h n, insert n visited), Inl (fmtv, h, anc, n, visited))
     \<in> up_rel"
proof -
  have "(all_parents h \<union> set (Parents fmtv h n)) = all_parents h"
    using Parents_sub[of fmtv h n] by auto
  then show ?thesis by (simp add: up_measure_def)
qed

lemma up_rel_call:
  assumes "p \<notin> visited"
  shows "(Inl (fmtv, h, anc, p, visited), Inr (fmtv, h, anc, p # ps, visited)) \<in> up_rel"
  using card_unvisited_call[OF finite_all_parents assms, of h ps]
  by (simp add: up_measure_def)

lemma up_rel_next:
  assumes "visited \<subseteq> y"
  shows "(Inr (fmtv, h, anc, ps, y), Inr (fmtv, h, anc, p # ps, visited)) \<in> up_rel"
  using card_unvisited_next[OF finite_all_parents assms, of h ps p]
  by (auto simp add: up_measure_def)

termination hasAncestor_visit
  apply (relation "up_rel")
      apply (simp add: wf_inv_image wf_lex_prod)
     apply (rule up_rel_visit)
    apply (erule up_rel_call)
   apply (rule up_rel_next)
   apply (metis hasAncestor_mono_dom(1) snd_conv)
  apply (rule up_rel_next)
  apply simp
  done

definition hasAncestor :: "('a \<Rightarrow> string) \<Rightarrow> 'a node list \<Rightarrow> addr \<Rightarrow> addr \<Rightarrow> bool" where
  "hasAncestor fmtv h n ancestor = fst (hasAncestor_visit fmtv h ancestor n {})"

section \<open>DAG: mutation\<close>

definition NewDAG :: "'a dag" where
  "NewDAG = \<lparr>heap = [], nodes = []\<rparr>"

text \<open>\<^verbatim>\<open>Node(data)\<close>: the lookup \<^verbatim>\<open>d.nodes[data]\<close>; \<open>None\<close> is the nil pointer.\<close>

definition Node :: "'a \<Rightarrow> 'a dag \<Rightarrow> addr option" where
  "Node v d = map_of (nodes d) v"

text \<open>
  \<^verbatim>\<open>AddNode\<close> returns the node pointer together with the state after the call. A new
  node is allocated at the end of the store. \<open>AddNode_on eq\<close> is \<^verbatim>\<open>AddNode\<close> on a key type
  whose \<^verbatim>\<open>==\<close> is \<open>eq\<close>; \<open>AddNode\<close> is \<^verbatim>\<open>AddNode\<close> on the key types whose \<^verbatim>\<open>==\<close>
  is equality of values, where the lookup is \<open>map_of\<close> and the assignment of a missing
  key is \<open>AList.update\<close>.
\<close>

definition AddNode_on :: "('a \<Rightarrow> 'a \<Rightarrow> bool) \<Rightarrow> 'a \<Rightarrow> 'a dag \<Rightarrow> addr \<times> 'a dag" where
  "AddNode_on eq v d =
     (case map_get eq (nodes d) v of
        Some node \<Rightarrow> (node, d)
      | None \<Rightarrow>
          (let node = length (heap d)
           in (node, d\<lparr>heap := heap d @ [NewNode v],
                       nodes := map_set eq (nodes d) v node\<rparr>)))"

definition AddNode :: "'a \<Rightarrow> 'a dag \<Rightarrow> addr \<times> 'a dag" where
  "AddNode v d = AddNode_on (=) v d"

lemma AddNode_unfold [code]:
  "AddNode v d =
     (case map_of (nodes d) v of
        Some node \<Rightarrow> (node, d)
      | None \<Rightarrow>
          (let node = length (heap d)
           in (node, d\<lparr>heap := heap d @ [NewNode v],
                       nodes := AList.update v node (nodes d)\<rparr>)))"
proof (cases "map_of (nodes d) v")
  case None
  then have "map_get (=) (nodes d) v = None" by (simp add: map_get_equality)
  with None show ?thesis
    by (simp add: AddNode_def AddNode_on_def map_set_fresh update_fresh)
next
  case (Some n)
  then show ?thesis by (simp add: AddNode_def AddNode_on_def map_get_equality)
qed

text \<open>\<^verbatim>\<open>AddEdge\<close> returns the error (\<open>None\<close> is Go's nil error) and the state.\<close>

definition AddEdge :: "('a \<Rightarrow> string) \<Rightarrow> 'a \<Rightarrow> 'a \<Rightarrow> 'a dag \<Rightarrow> error option \<times> 'a dag" where
  "AddEdge fmtv from to d =
     (let (fromNode, d1) = AddNode from d;
          (toNode, d2) = AddNode to d1
      in if hasAncestor fmtv (heap d2) fromNode toNode then (Some ErrCycleDetected, d2)
         else (None, d2\<lparr>heap := addParent toNode fromNode (addChild fromNode toNode (heap d2))\<rparr>))"

text \<open>
  \<^verbatim>\<open>RemoveNode\<close>: the first loop ranges over the node's parents, the second over its
  children as they are after the first loop.
\<close>

definition RemoveNode :: "'a \<Rightarrow> 'a dag \<Rightarrow> 'a dag" where
  "RemoveNode v d =
     (case map_of (nodes d) v of
        None \<Rightarrow> d
      | Some node \<Rightarrow>
          (let h1 = fold (\<lambda>parent h. deleteChild parent node h) (parents_at (heap d) node) (heap d);
               h2 = fold (\<lambda>child h. deleteParent child node h) (children_at h1 node) h1
           in d\<lparr>heap := h2, nodes := AList.delete v (nodes d)\<rparr>))"

definition RemoveEdge :: "'a \<Rightarrow> 'a \<Rightarrow> 'a dag \<Rightarrow> 'a dag" where
  "RemoveEdge from to d =
     (case (map_of (nodes d) from, map_of (nodes d) to) of
        (Some fromNode, Some toNode) \<Rightarrow>
          d\<lparr>heap := deleteParent toNode fromNode (deleteChild fromNode toNode (heap d))\<rparr>
      | _ \<Rightarrow> d)"

text \<open>\<^verbatim>\<open>Clear\<close> installs a fresh empty map; the old nodes stay in the store, orphaned.\<close>

definition Clear :: "'a dag \<Rightarrow> 'a dag" where
  "Clear d = d\<lparr>nodes := []\<rparr>"

section \<open>DAG: queries\<close>

subsection \<open>HasPath\<close>

text \<open>The closure \<^verbatim>\<open>visit\<close> of \<^verbatim>\<open>HasPath\<close> and its loop over \<^verbatim>\<open>node.Children()\<close>.\<close>

function HasPath_visit ::
    "('a \<Rightarrow> string) \<Rightarrow> 'a node list \<Rightarrow> addr \<Rightarrow> addr \<Rightarrow> addr set \<Rightarrow> bool \<times> addr set"
  and HasPath_loop ::
    "('a \<Rightarrow> string) \<Rightarrow> 'a node list \<Rightarrow> addr \<Rightarrow> addr list \<Rightarrow> addr set \<Rightarrow> bool \<times> addr set"
where
  "HasPath_visit fmtv h toNode n visited =
     (if n = toNode then (True, visited)
      else HasPath_loop fmtv h toNode (Children fmtv h n) (insert n visited))"
| "HasPath_loop fmtv h toNode [] visited = (False, visited)"
| "HasPath_loop fmtv h toNode (c # cs) visited =
     (if c \<notin> visited then
        (case HasPath_visit fmtv h toNode c visited of
           (True, visited') \<Rightarrow> (True, visited')
         | (False, visited') \<Rightarrow> HasPath_loop fmtv h toNode cs visited')
      else HasPath_loop fmtv h toNode cs visited)"
  by pat_completeness auto

lemma HasPath_mono_dom:
  "HasPath_visit_HasPath_loop_dom (Inl (fmtv, h, anc, n, visited)) \<longrightarrow>
      visited \<subseteq> snd (HasPath_visit fmtv h anc n visited)"
  "HasPath_visit_HasPath_loop_dom (Inr (fmtv, h, anc, ps, visited)) \<longrightarrow>
      visited \<subseteq> snd (HasPath_loop fmtv h anc ps visited)"
proof -
  have a: "HasPath_visit_HasPath_loop_dom (Inl (fmtv, h, anc, n, visited)) \<Longrightarrow>
      visited \<subseteq> snd (HasPath_visit fmtv h anc n visited)"
   and b: "HasPath_visit_HasPath_loop_dom (Inr (fmtv, h, anc, ps, visited)) \<Longrightarrow>
      visited \<subseteq> snd (HasPath_loop fmtv h anc ps visited)"
  proof (induction rule: HasPath_visit_HasPath_loop.pinduct)
    case (1 fmtv h anc n visited)
    then show ?case by (auto simp: HasPath_visit.psimps)
  next
    case (2 fmtv h anc visited)
    then show ?case by (simp add: HasPath_loop.psimps)
  next
    case (3 fmtv h anc p ps visited)
    show ?case
    proof (cases "p \<in> visited")
      case True
      with 3 show ?thesis by (simp add: HasPath_loop.psimps)
    next
      case False
      obtain x y where xy: "HasPath_visit fmtv h anc p visited = (x, y)"
        by (cases "HasPath_visit fmtv h anc p visited")
      with 3 False have vy: "visited \<subseteq> y" by simp
      show ?thesis
      proof (cases x)
        case True
        with 3(1) False xy vy show ?thesis by (simp add: HasPath_loop.psimps)
      next
        case fx: False
        with 3(3)[OF False xy[symmetric]]
        have "y \<subseteq> snd (HasPath_loop fmtv h anc ps y)" by simp
        with 3(1) False xy vy fx show ?thesis
          by (auto simp add: HasPath_loop.psimps)
      qed
    qed
  qed
  show "HasPath_visit_HasPath_loop_dom (Inl (fmtv, h, anc, n, visited)) \<longrightarrow>
      visited \<subseteq> snd (HasPath_visit fmtv h anc n visited)" using a by blast
  show "HasPath_visit_HasPath_loop_dom (Inr (fmtv, h, anc, ps, visited)) \<longrightarrow>
      visited \<subseteq> snd (HasPath_loop fmtv h anc ps visited)" using b by blast
qed

definition down_measure ::
  "(('a \<Rightarrow> string) \<times> 'a node list \<times> addr \<times> addr \<times> addr set) +
   (('a \<Rightarrow> string) \<times> 'a node list \<times> addr \<times> addr list \<times> addr set) \<Rightarrow> nat \<times> nat" where
  "down_measure x = (case x of
      Inl (fmtv, h, anc, n, visited) \<Rightarrow>
        (card (all_children h - insert n visited), Suc (length (Children fmtv h n)))
    | Inr (fmtv, h, anc, ps, visited) \<Rightarrow>
        (card ((all_children h \<union> set ps) - visited), length ps))"

abbreviation down_rel where
  "down_rel \<equiv> inv_image (less_than <*lex*> less_than) down_measure"

lemma down_rel_visit:
  "(Inr (fmtv, h, anc, Children fmtv h n, insert n visited), Inl (fmtv, h, anc, n, visited))
     \<in> down_rel"
proof -
  have "(all_children h \<union> set (Children fmtv h n)) = all_children h"
    using Children_sub[of fmtv h n] by auto
  then show ?thesis by (simp add: down_measure_def)
qed

lemma down_rel_call:
  assumes "p \<notin> visited"
  shows "(Inl (fmtv, h, anc, p, visited), Inr (fmtv, h, anc, p # ps, visited)) \<in> down_rel"
  using card_unvisited_call[OF finite_all_children assms, of h ps]
  by (simp add: down_measure_def)

lemma down_rel_next:
  assumes "visited \<subseteq> y"
  shows "(Inr (fmtv, h, anc, ps, y), Inr (fmtv, h, anc, p # ps, visited)) \<in> down_rel"
  using card_unvisited_next[OF finite_all_children assms, of h ps p]
  by (auto simp add: down_measure_def)

termination HasPath_visit
  apply (relation "down_rel")
      apply (simp add: wf_inv_image wf_lex_prod)
     apply (rule down_rel_visit)
    apply (erule down_rel_call)
   apply (rule down_rel_next)
   apply (metis HasPath_mono_dom(1) snd_conv)
  apply (rule down_rel_next)
  apply simp
  done

definition HasPath :: "('a \<Rightarrow> string) \<Rightarrow> 'a \<Rightarrow> 'a \<Rightarrow> 'a dag \<Rightarrow> bool" where
  "HasPath fmtv from to d =
     (case (map_of (nodes d) from, map_of (nodes d) to) of
        (Some fromNode, Some toNode) \<Rightarrow> fst (HasPath_visit fmtv (heap d) toNode fromNode {})
      | _ \<Rightarrow> False)"

subsection \<open>ShortestPath\<close>

type_synonym pathNode = "addr \<times> addr list"

definition ShortestPath_child ::
  "addr list \<Rightarrow> addr \<Rightarrow> pathNode list \<times> addr set \<Rightarrow> pathNode list \<times> addr set" where
  "ShortestPath_child path child = (\<lambda>(queue, visited).
     if child \<notin> visited then (queue @ [(child, path @ [child])], insert child visited)
     else (queue, visited))"

lemma ShortestPath_child_measure:
  assumes "finite A" and "set cs \<subseteq> A"
  shows "card (A - snd (fold (ShortestPath_child path) cs (queue, visited)))
           + length (fst (fold (ShortestPath_child path) cs (queue, visited)))
         = card (A - visited) + length queue"
  using assms(2)
proof (induction cs arbitrary: queue visited)
  case Nil
  then show ?case by simp
next
  case (Cons c cs)
  show ?case
  proof (cases "c \<in> visited")
    case True
    with Cons show ?thesis by (simp add: ShortestPath_child_def)
  next
    case False
    have "c \<in> A - visited" using Cons.prems False by simp
    then have "card (A - visited) = Suc (card (A - insert c visited))"
      using assms(1)
      by (metis Diff_insert card_Suc_Diff1 finite_Diff)
    with Cons False show ?thesis by (simp add: ShortestPath_child_def)
  qed
qed

function ShortestPath_loop ::
  "('a \<Rightarrow> string) \<Rightarrow> 'a node list \<Rightarrow> addr \<Rightarrow> pathNode list \<Rightarrow> addr set \<Rightarrow> addr list option" where
  "ShortestPath_loop fmtv h toNode [] visited = None"
| "ShortestPath_loop fmtv h toNode (current # queue) visited =
     (if fst current = toNode then Some (snd current)
      else (let (queue', visited') =
                  fold (ShortestPath_child (snd current)) (Children fmtv h (fst current))
                    (queue, visited)
            in ShortestPath_loop fmtv h toNode queue' visited'))"
  by pat_completeness auto

termination
proof (relation "measure (\<lambda>(fmtv, h, toNode, queue, visited).
                    card (all_children h - visited) + length queue)")
  show "wf (measure (\<lambda>(fmtv :: 'a \<Rightarrow> string, h :: 'a node list, toNode :: addr, queue :: pathNode list, visited).
                    card (all_children h - visited) + length queue))" by simp
next
  fix fmtv :: "'a \<Rightarrow> string" and h :: "'a node list" and toNode :: addr and current :: pathNode
    and queue :: "pathNode list" and visited :: "addr set" and x :: "pathNode list \<times> addr set"
    and xa :: "pathNode list" and y :: "addr set"
  assume "x = fold (ShortestPath_child (snd current)) (Children fmtv h (fst current)) (queue, visited)"
    and "(xa, y) = x"
  then have "fold (ShortestPath_child (snd current)) (Children fmtv h (fst current)) (queue, visited) = (xa, y)"
    by simp
  moreover have "card (all_children h - snd (fold (ShortestPath_child (snd current)) (Children fmtv h (fst current)) (queue, visited)))
           + length (fst (fold (ShortestPath_child (snd current)) (Children fmtv h (fst current)) (queue, visited)))
         = card (all_children h - visited) + length queue"
    by (rule ShortestPath_child_measure[OF finite_all_children Children_sub])
  ultimately
  show "((fmtv, h, toNode, xa, y), fmtv, h, toNode, current # queue, visited)
       \<in> measure (\<lambda>(fmtv, h, toNode, queue, visited). card (all_children h - visited) + length queue)"
    by simp
qed

definition ShortestPath :: "('a \<Rightarrow> string) \<Rightarrow> 'a \<Rightarrow> 'a \<Rightarrow> 'a dag \<Rightarrow> addr list option" where
  "ShortestPath fmtv from to d =
     (case (map_of (nodes d) from, map_of (nodes d) to) of
        (Some fromNode, Some toNode) \<Rightarrow>
          ShortestPath_loop fmtv (heap d) toNode [(fromNode, [fromNode])] {fromNode}
      | _ \<Rightarrow> None)"

subsection \<open>Ancestors and Descendants\<close>

text \<open>
  A Go slice can be nil, and \<^verbatim>\<open>append\<close> to a nil slice gives a slice that is not nil:
  a slice is a \<open>list option\<close> with \<open>None\<close> for nil.
\<close>

definition append_slice :: "'b list option \<Rightarrow> 'b \<Rightarrow> 'b list option" where
  "append_slice s x = (case s of None \<Rightarrow> Some [x] | Some xs \<Rightarrow> Some (xs @ [x]))"

text \<open>The closure \<^verbatim>\<open>visit\<close> of \<^verbatim>\<open>Ancestors\<close>; its state is the pair of the captured
  \<^verbatim>\<open>visited\<close> and \<^verbatim>\<open>ancestors\<close>.\<close>

function Ancestors_visit ::
    "('a \<Rightarrow> string) \<Rightarrow> 'a node list \<Rightarrow> addr \<Rightarrow> addr set \<times> addr list option
       \<Rightarrow> addr set \<times> addr list option"
  and Ancestors_loop ::
    "('a \<Rightarrow> string) \<Rightarrow> 'a node list \<Rightarrow> addr list \<Rightarrow> addr set \<times> addr list option
       \<Rightarrow> addr set \<times> addr list option"
where
  "Ancestors_visit fmtv h n st = Ancestors_loop fmtv h (Parents fmtv h n) st"
| "Ancestors_loop fmtv h [] st = st"
| "Ancestors_loop fmtv h (p # ps) (visited, ancestors) =
     (if p \<notin> visited then
        Ancestors_loop fmtv h ps
          (Ancestors_visit fmtv h p (insert p visited, append_slice ancestors p))
      else Ancestors_loop fmtv h ps (visited, ancestors))"
  by pat_completeness auto

lemma Ancestors_mono_dom:
  "Ancestors_visit_Ancestors_loop_dom (Inl (fmtv, h, n, st)) \<longrightarrow>
      fst st \<subseteq> fst (Ancestors_visit fmtv h n st)"
  "Ancestors_visit_Ancestors_loop_dom (Inr (fmtv, h, ps, st)) \<longrightarrow>
      fst st \<subseteq> fst (Ancestors_loop fmtv h ps st)"
proof -
  have a: "Ancestors_visit_Ancestors_loop_dom (Inl (fmtv, h, n, st)) \<Longrightarrow>
      fst st \<subseteq> fst (Ancestors_visit fmtv h n st)"
   and b: "Ancestors_visit_Ancestors_loop_dom (Inr (fmtv, h, ps, st)) \<Longrightarrow>
      fst st \<subseteq> fst (Ancestors_loop fmtv h ps st)"
  proof (induction rule: Ancestors_visit_Ancestors_loop.pinduct)
    case (1 fmtv h n st)
    then show ?case by (simp add: Ancestors_visit.psimps)
  next
    case (2 fmtv h st)
    then show ?case by (simp add: Ancestors_loop.psimps)
  next
    case (3 fmtv h p ps visited ancestors)
    show ?case
    proof (cases "p \<in> visited")
      case True
      with 3 show ?thesis by (simp add: Ancestors_loop.psimps)
    next
      case False
      with 3 show ?thesis by (auto simp add: Ancestors_loop.psimps)
    qed
  qed
  show "Ancestors_visit_Ancestors_loop_dom (Inl (fmtv, h, n, st)) \<longrightarrow>
      fst st \<subseteq> fst (Ancestors_visit fmtv h n st)" using a by blast
  show "Ancestors_visit_Ancestors_loop_dom (Inr (fmtv, h, ps, st)) \<longrightarrow>
      fst st \<subseteq> fst (Ancestors_loop fmtv h ps st)" using b by blast
qed

definition anc_measure ::
  "(('a \<Rightarrow> string) \<times> 'a node list \<times> addr \<times> addr set \<times> addr list option) +
   (('a \<Rightarrow> string) \<times> 'a node list \<times> addr list \<times> addr set \<times> addr list option) \<Rightarrow> nat \<times> nat" where
  "anc_measure x = (case x of
      Inl (fmtv, h, n, visited, acc) \<Rightarrow>
        (card (all_parents h - visited), Suc (length (Parents fmtv h n)))
    | Inr (fmtv, h, ps, visited, acc) \<Rightarrow>
        (card ((all_parents h \<union> set ps) - visited), length ps))"

abbreviation anc_rel where
  "anc_rel \<equiv> inv_image (less_than <*lex*> less_than) anc_measure"

lemma anc_rel_visit:
  "(Inr (fmtv, h, Parents fmtv h n, st), Inl (fmtv, h, n, st)) \<in> anc_rel"
proof -
  have "(all_parents h \<union> set (Parents fmtv h n)) = all_parents h"
    using Parents_sub[of fmtv h n] by auto
  then show ?thesis by (cases st) (simp add: anc_measure_def)
qed

lemma anc_rel_call:
  assumes "p \<notin> visited"
  shows "(Inl (fmtv, h, p, insert p visited, acc'), Inr (fmtv, h, p # ps, visited, acc)) \<in> anc_rel"
  using card_unvisited_call[OF finite_all_parents assms, of h ps]
  by (simp add: anc_measure_def)

lemma anc_rel_next:
  assumes "visited \<subseteq> fst st"
  shows "(Inr (fmtv, h, ps, st), Inr (fmtv, h, p # ps, visited, acc)) \<in> anc_rel"
  using card_unvisited_next[OF finite_all_parents assms, of h ps p]
  by (cases st) (auto simp add: anc_measure_def)

termination Ancestors_visit
  apply (relation "anc_rel")
      apply (simp add: wf_inv_image wf_lex_prod)
     apply (rule anc_rel_visit)
    apply (erule anc_rel_call)
   apply (rule anc_rel_next)
   apply (metis Ancestors_mono_dom(1) fst_conv insert_subset)
  apply (rule anc_rel_next)
  apply simp
  done

definition Ancestors :: "('a \<Rightarrow> string) \<Rightarrow> 'a \<Rightarrow> 'a dag \<Rightarrow> addr list option" where
  "Ancestors fmtv v d =
     (case map_of (nodes d) v of
        None \<Rightarrow> None
      | Some startNode \<Rightarrow> snd (Ancestors_visit fmtv (heap d) startNode ({}, None)))"

function Descendants_visit ::
    "('a \<Rightarrow> string) \<Rightarrow> 'a node list \<Rightarrow> addr \<Rightarrow> addr set \<times> addr list option
       \<Rightarrow> addr set \<times> addr list option"
  and Descendants_loop ::
    "('a \<Rightarrow> string) \<Rightarrow> 'a node list \<Rightarrow> addr list \<Rightarrow> addr set \<times> addr list option
       \<Rightarrow> addr set \<times> addr list option"
where
  "Descendants_visit fmtv h n st = Descendants_loop fmtv h (Children fmtv h n) st"
| "Descendants_loop fmtv h [] st = st"
| "Descendants_loop fmtv h (c # cs) (visited, descendants) =
     (if c \<notin> visited then
        Descendants_loop fmtv h cs
          (Descendants_visit fmtv h c (insert c visited, append_slice descendants c))
      else Descendants_loop fmtv h cs (visited, descendants))"
  by pat_completeness auto

lemma Descendants_mono_dom:
  "Descendants_visit_Descendants_loop_dom (Inl (fmtv, h, n, st)) \<longrightarrow>
      fst st \<subseteq> fst (Descendants_visit fmtv h n st)"
  "Descendants_visit_Descendants_loop_dom (Inr (fmtv, h, ps, st)) \<longrightarrow>
      fst st \<subseteq> fst (Descendants_loop fmtv h ps st)"
proof -
  have a: "Descendants_visit_Descendants_loop_dom (Inl (fmtv, h, n, st)) \<Longrightarrow>
      fst st \<subseteq> fst (Descendants_visit fmtv h n st)"
   and b: "Descendants_visit_Descendants_loop_dom (Inr (fmtv, h, ps, st)) \<Longrightarrow>
      fst st \<subseteq> fst (Descendants_loop fmtv h ps st)"
  proof (induction rule: Descendants_visit_Descendants_loop.pinduct)
    case (1 fmtv h n st)
    then show ?case by (simp add: Descendants_visit.psimps)
  next
    case (2 fmtv h st)
    then show ?case by (simp add: Descendants_loop.psimps)
  next
    case (3 fmtv h p ps visited descendants)
    show ?case
    proof (cases "p \<in> visited")
      case True
      with 3 show ?thesis by (simp add: Descendants_loop.psimps)
    next
      case False
      with 3 show ?thesis by (auto simp add: Descendants_loop.psimps)
    qed
  qed
  show "Descendants_visit_Descendants_loop_dom (Inl (fmtv, h, n, st)) \<longrightarrow>
      fst st \<subseteq> fst (Descendants_visit fmtv h n st)" using a by blast
  show "Descendants_visit_Descendants_loop_dom (Inr (fmtv, h, ps, st)) \<longrightarrow>
      fst st \<subseteq> fst (Descendants_loop fmtv h ps st)" using b by blast
qed

definition desc_measure ::
  "(('a \<Rightarrow> string) \<times> 'a node list \<times> addr \<times> addr set \<times> addr list option) +
   (('a \<Rightarrow> string) \<times> 'a node list \<times> addr list \<times> addr set \<times> addr list option) \<Rightarrow> nat \<times> nat" where
  "desc_measure x = (case x of
      Inl (fmtv, h, n, visited, acc) \<Rightarrow>
        (card (all_children h - visited), Suc (length (Children fmtv h n)))
    | Inr (fmtv, h, ps, visited, acc) \<Rightarrow>
        (card ((all_children h \<union> set ps) - visited), length ps))"

abbreviation desc_rel where
  "desc_rel \<equiv> inv_image (less_than <*lex*> less_than) desc_measure"

lemma desc_rel_visit:
  "(Inr (fmtv, h, Children fmtv h n, st), Inl (fmtv, h, n, st)) \<in> desc_rel"
proof -
  have "(all_children h \<union> set (Children fmtv h n)) = all_children h"
    using Children_sub[of fmtv h n] by auto
  then show ?thesis by (cases st) (simp add: desc_measure_def)
qed

lemma desc_rel_call:
  assumes "p \<notin> visited"
  shows "(Inl (fmtv, h, p, insert p visited, acc'), Inr (fmtv, h, p # ps, visited, acc)) \<in> desc_rel"
  using card_unvisited_call[OF finite_all_children assms, of h ps]
  by (simp add: desc_measure_def)

lemma desc_rel_next:
  assumes "visited \<subseteq> fst st"
  shows "(Inr (fmtv, h, ps, st), Inr (fmtv, h, p # ps, visited, acc)) \<in> desc_rel"
  using card_unvisited_next[OF finite_all_children assms, of h ps p]
  by (cases st) (auto simp add: desc_measure_def)

termination Descendants_visit
  apply (relation "desc_rel")
      apply (simp add: wf_inv_image wf_lex_prod)
     apply (rule desc_rel_visit)
    apply (erule desc_rel_call)
   apply (rule desc_rel_next)
   apply (metis Descendants_mono_dom(1) fst_conv insert_subset)
  apply (rule desc_rel_next)
  apply simp
  done

definition Descendants :: "('a \<Rightarrow> string) \<Rightarrow> 'a \<Rightarrow> 'a dag \<Rightarrow> addr list option" where
  "Descendants fmtv v d =
     (case map_of (nodes d) v of
        None \<Rightarrow> None
      | Some startNode \<Rightarrow> snd (Descendants_visit fmtv (heap d) startNode ({}, None)))"

subsection \<open>Traverse\<close>

text \<open>
  \<^verbatim>\<open>inDegree\<close> is a \<^verbatim>\<open>map[*Node[T]]int\<close>. Reading a missing key gives 0, so the
  decrement of a missing key stores -1. The counters are unbounded integers: a counter is
  at most the number of nodes and is decremented at most once per edge. The error result
  of \<^verbatim>\<open>Traverse\<close> is always nil and is left out.
\<close>

definition inDegree_init :: "'a node list \<Rightarrow> ('a \<times> addr) list \<Rightarrow> (addr \<rightharpoonup> int)" where
  "inDegree_init h ns =
     fold (\<lambda>(_, node) inDegree. inDegree(node \<mapsto> int (length (parents_at h node)))) ns Map.empty"

definition Traverse_child ::
  "addr \<Rightarrow> (addr \<rightharpoonup> int) \<times> addr list \<Rightarrow> (addr \<rightharpoonup> int) \<times> addr list" where
  "Traverse_child child = (\<lambda>(inDegree, queue).
     let k = (case inDegree child of None \<Rightarrow> 0 | Some k \<Rightarrow> k) - 1;
         inDegree' = inDegree(child \<mapsto> k)
     in if k = 0 then (inDegree', queue @ [child]) else (inDegree', queue))"

definition positive :: "addr set \<Rightarrow> (addr \<rightharpoonup> int) \<Rightarrow> addr set" where
  "positive A inDegree = {a \<in> A. \<exists>k. inDegree a = Some k \<and> 0 < k}"

lemma Traverse_child_measure:
  assumes "finite A" and "set cs \<subseteq> A"
  shows "card (positive A (fst (fold Traverse_child cs (inDegree, queue))))
           + length (snd (fold Traverse_child cs (inDegree, queue)))
         \<le> card (positive A inDegree) + length queue"
  using assms(2)
proof (induction cs arbitrary: inDegree queue)
  case Nil
  then show ?case by simp
next
  case (Cons c cs)
  define k where "k = (case inDegree c of None \<Rightarrow> 0 | Some k \<Rightarrow> k) - 1"
  define m where "m = inDegree(c \<mapsto> k)"
  have fin: "finite (positive A inDegree)" using assms(1) by (simp add: positive_def)
  have cA: "c \<in> A" using Cons.prems by simp
  have rest: "set cs \<subseteq> A" using Cons.prems by simp
  show ?case
  proof (cases "k = 0")
    case True
    then have c_pos: "c \<in> positive A inDegree"
      using cA by (auto simp: positive_def k_def split: option.splits)
    have "positive A m = positive A inDegree - {c}"
      using True by (auto simp: positive_def m_def)
    then have "card (positive A m) + 1 = card (positive A inDegree)"
      using c_pos fin by (simp add: card_Diff_singleton) (metis Suc_pred card_gt_0_iff empty_iff)
    moreover have "fold Traverse_child (c # cs) (inDegree, queue)
                 = fold Traverse_child cs (m, queue @ [c])"
      using True by (simp add: Traverse_child_def Let_def k_def m_def)
    moreover have "card (positive A (fst (fold Traverse_child cs (m, queue @ [c]))))
           + length (snd (fold Traverse_child cs (m, queue @ [c])))
         \<le> card (positive A m) + length (queue @ [c])"
      by (rule Cons.IH[OF rest])
    ultimately show ?thesis by simp
  next
    case False
    have "positive A m \<subseteq> positive A inDegree"
      using False by (auto simp: positive_def m_def k_def split: option.splits if_splits)
    then have "card (positive A m) \<le> card (positive A inDegree)"
      using fin by (rule card_mono[rotated])
    moreover have "fold Traverse_child (c # cs) (inDegree, queue)
                 = fold Traverse_child cs (m, queue)"
      using False by (simp add: Traverse_child_def Let_def k_def m_def)
    moreover have "card (positive A (fst (fold Traverse_child cs (m, queue))))
           + length (snd (fold Traverse_child cs (m, queue)))
         \<le> card (positive A m) + length queue"
      by (rule Cons.IH[OF rest])
    ultimately show ?thesis by simp
  qed
qed

function Traverse_loop ::
  "('a \<Rightarrow> string) \<Rightarrow> 'a node list \<Rightarrow> addr list \<Rightarrow> (addr \<rightharpoonup> int) \<Rightarrow> addr list \<Rightarrow> addr list" where
  "Traverse_loop fmtv h [] inDegree sorted_nodes = sorted_nodes"
| "Traverse_loop fmtv h (current # queue) inDegree sorted_nodes =
     (let (inDegree', queue') = fold Traverse_child (Children fmtv h current) (inDegree, queue)
      in Traverse_loop fmtv h queue' inDegree' (sorted_nodes @ [current]))"
  by pat_completeness auto

termination
proof (relation "measure (\<lambda>(fmtv, h, queue, inDegree, sorted_nodes).
                    card (positive (all_children h) inDegree) + length queue)")
  show "wf (measure (\<lambda>(fmtv :: 'a \<Rightarrow> string, h :: 'a node list, queue :: addr list,
                      inDegree :: addr \<rightharpoonup> int, sorted_nodes :: addr list).
                    card (positive (all_children h) inDegree) + length queue))" by simp
next
  fix fmtv :: "'a \<Rightarrow> string" and h :: "'a node list" and current :: addr
    and queue :: "addr list" and inDegree :: "addr \<rightharpoonup> int" and sorted_nodes :: "addr list"
    and x :: "(addr \<rightharpoonup> int) \<times> addr list" and xa :: "addr \<rightharpoonup> int" and y :: "addr list"
  assume "x = fold Traverse_child (Children fmtv h current) (inDegree, queue)"
    and "(xa, y) = x"
  then have "fold Traverse_child (Children fmtv h current) (inDegree, queue) = (xa, y)"
    by simp
  moreover have "card (positive (all_children h) (fst (fold Traverse_child (Children fmtv h current) (inDegree, queue))))
           + length (snd (fold Traverse_child (Children fmtv h current) (inDegree, queue)))
         \<le> card (positive (all_children h) inDegree) + length queue"
    by (rule Traverse_child_measure[OF finite_all_children Children_sub])
  ultimately
  show "((fmtv, h, y, xa, sorted_nodes @ [current]), fmtv, h, current # queue, inDegree, sorted_nodes)
       \<in> measure (\<lambda>(fmtv, h, queue, inDegree, sorted_nodes).
                    card (positive (all_children h) inDegree) + length queue)"
    by simp
qed

text \<open>
  The second loop of \<^verbatim>\<open>Traverse\<close> ranges over the map \<^verbatim>\<open>inDegree\<close>, and the order
  in which it meets the roots is the order of the result. Go leaves that order open, so
  it is the argument \<open>order\<close>: the keys of \<^verbatim>\<open>inDegree\<close> in the order in which
  \<^verbatim>\<open>range\<close> yields them.
\<close>

definition Traverse :: "('a \<Rightarrow> string) \<Rightarrow> addr list \<Rightarrow> 'a dag \<Rightarrow> addr list" where
  "Traverse fmtv order d =
     (let inDegree = inDegree_init (heap d) (nodes d);
          queue = filter (\<lambda>node. inDegree node = Some 0) order
      in Traverse_loop fmtv (heap d) queue inDegree [])"

section \<open>Formatting of integers\<close>

text \<open>\<^verbatim>\<open>fmt.Sprintf("%v", i)\<close> for an \<^verbatim>\<open>int\<close>: the decimal digits, with a minus sign.\<close>

fun nat_digits :: "nat \<Rightarrow> string" where
  "nat_digits n =
     (if n < 10 then [char_of (48 + n)]
      else nat_digits (n div 10) @ [char_of (48 + n mod 10)])"

definition fmt_int :: "int \<Rightarrow> string" where
  "fmt_int i = (if i < 0 then CHR ''-'' # nat_digits (nat (- i)) else nat_digits (nat i))"

section \<open>Reachable states\<close>

inductive reachable :: "('a \<Rightarrow> string) \<Rightarrow> 'a dag \<Rightarrow> bool" for fmtv :: "'a \<Rightarrow> string" where
  reach_NewDAG: "reachable fmtv NewDAG"
| reach_AddNode: "reachable fmtv d \<Longrightarrow> reachable fmtv (snd (AddNode v d))"
| reach_AddEdge: "reachable fmtv d \<Longrightarrow> reachable fmtv (snd (AddEdge fmtv from to d))"
| reach_RemoveNode: "reachable fmtv d \<Longrightarrow> reachable fmtv (RemoveNode v d)"
| reach_RemoveEdge: "reachable fmtv d \<Longrightarrow> reachable fmtv (RemoveEdge from to d)"
| reach_Clear: "reachable fmtv d \<Longrightarrow> reachable fmtv (Clear d)"

section \<open>Vocabulary of the properties\<close>

text \<open>The parent links and the child links of a store, as relations on addresses.\<close>

definition parent_rel :: "'a node list \<Rightarrow> (addr \<times> addr) set" where
  "parent_rel h = {(n, p). p \<in> set (parents_at h n)}"

definition child_rel :: "'a node list \<Rightarrow> (addr \<times> addr) set" where
  "child_rel h = {(n, c). c \<in> set (children_at h n)}"

subsection \<open>The invariant of reachable states\<close>

text \<open>The nodes the graph owns: the addresses in its index.\<close>

definition index :: "'a dag \<Rightarrow> addr set" where
  "index d = snd ` set (nodes d)"

text \<open>The edges of the graph: the child links of the nodes it owns.\<close>

definition edges :: "'a dag \<Rightarrow> (addr \<times> addr) set" where
  "edges d = {(x, y). x \<in> index d \<and> y \<in> set (children_at (heap d) x)}"

definition index_ok :: "'a dag \<Rightarrow> bool" where
  "index_ok d \<longleftrightarrow> distinct (map fst (nodes d)) \<and>
     (\<forall>(v, a) \<in> set (nodes d). a < length (heap d) \<and> data (heap d ! a) = v)"

definition closed :: "'a dag \<Rightarrow> bool" where
  "closed d \<longleftrightarrow> (\<forall>a \<in> index d. set (parents_at (heap d) a) \<subseteq> index d \<and>
                                set (children_at (heap d) a) \<subseteq> index d)"

definition mutual :: "'a dag \<Rightarrow> bool" where
  "mutual d \<longleftrightarrow> (\<forall>x \<in> index d. \<forall>y \<in> index d.
      y \<in> set (children_at (heap d) x) \<longleftrightarrow> x \<in> set (parents_at (heap d) y))"

definition no_dups :: "'a dag \<Rightarrow> bool" where
  "no_dups d \<longleftrightarrow> (\<forall>a \<in> index d. distinct (parents_at (heap d) a) \<and>
                                 distinct (children_at (heap d) a))"

definition wf_dag :: "'a dag \<Rightarrow> bool" where
  "wf_dag d \<longleftrightarrow> index_ok d \<and> closed d \<and> mutual d \<and> no_dups d \<and> acyclic (edges d)"

text \<open>\<open>ancestor_of d a v\<close>: the value \<open>a\<close> is an ancestor of the value \<open>v\<close>, that is, both
  are present and the node of \<open>a\<close> is met by walking upward from the node of \<open>v\<close> through
  one or more parent links.\<close>

definition ancestor_of :: "'a dag \<Rightarrow> 'a \<Rightarrow> 'a \<Rightarrow> bool" where
  "ancestor_of d a v \<longleftrightarrow>
     (\<exists>x y. Node a d = Some x \<and> Node v d = Some y \<and> (y, x) \<in> (parent_rel (heap d))\<^sup>+)"

text \<open>The graph with the single edge from 1 to 2.\<close>

definition example_1_2 :: "int dag" where
  "example_1_2 = snd (AddEdge fmt_int 1 2 NewDAG)"

text \<open>
  \<open>is_path h q a b\<close>: the node sequence \<open>q\<close> is a directed path from \<open>a\<close> to \<open>b\<close>: it
  starts at \<open>a\<close>, ends at \<open>b\<close>, and each node is followed by one of its children. A path
  of \<open>k\<close> nodes has \<open>k - 1\<close> edges.
\<close>

definition is_path :: "'a node list \<Rightarrow> addr list \<Rightarrow> addr \<Rightarrow> addr \<Rightarrow> bool" where
  "is_path h q a b \<longleftrightarrow>
     q \<noteq> [] \<and> hd q = a \<and> last q = b \<and> successively (\<lambda>x y. y \<in> set (children_at h x)) q"

text \<open>
  The invariant of the loop of \<^verbatim>\<open>ShortestPath\<close>, for the start node \<open>f\<close> and the target
  \<open>t\<close>: the start node is visited; every queued node is visited; every queued path is a
  shortest path from \<open>f\<close> to its node; every visited node that is no longer queued has all
  its children visited and is not the target; the queued paths are ordered by length, and
  the lengths differ by at most one.
\<close>

definition sp_inv ::
  "'a node list \<Rightarrow> addr \<Rightarrow> addr \<Rightarrow> (addr \<times> addr list) list \<Rightarrow> addr set \<Rightarrow> bool" where
  "sp_inv h f t queue visited \<longleftrightarrow>
     f \<in> visited \<and>
     fst ` set queue \<subseteq> visited \<and>
     (\<forall>(n, p) \<in> set queue. is_path h p f n \<and> (\<forall>q. is_path h q f n \<longrightarrow> length p \<le> length q)) \<and>
     (\<forall>y \<in> visited - fst ` set queue. set (children_at h y) \<subseteq> visited \<and> y \<noteq> t) \<and>
     sorted (map (\<lambda>e. length (snd e)) queue) \<and>
     (\<forall>e \<in> set queue. length (snd e) \<le> Suc (length (snd (hd queue))))"

text \<open>
  The graph of the shortest-path test: the values 1 to 7, then the edges from 1 to 2, 2 to 3,
  1 to 4, 4 to 3, 2 to 5 and 6 to 7.
\<close>

definition example_paths :: "int dag" where
  "example_paths =
     fold (\<lambda>(a, b) d. snd (AddEdge fmt_int a b d)) [(1, 2), (2, 3), (1, 4), (4, 3), (2, 5), (6, 7)]
       (fold (\<lambda>v d. snd (AddNode v d)) [1, 2, 3, 4, 5, 6, 7] NewDAG)"

text \<open>The data of the nodes of a path.\<close>

definition path_data :: "'a dag \<Rightarrow> addr list \<Rightarrow> 'a list" where
  "path_data d p = map (\<lambda>n. data (heap d ! n)) p"

text \<open>The position of the first occurrence of a node in a sequence.\<close>

definition position :: "addr list \<Rightarrow> addr \<Rightarrow> nat" where
  "position xs x = length (takeWhile (\<lambda>y. y \<noteq> x) xs)"

text \<open>Reading \<^verbatim>\<open>inDegree[x]\<close>: a missing key reads as 0.\<close>

definition deg_of :: "(addr \<rightharpoonup> int) \<Rightarrow> addr \<Rightarrow> int" where
  "deg_of m x = (case m x of None \<Rightarrow> 0 | Some k \<Rightarrow> k)"

text \<open>
  The invariant of the loop of \<^verbatim>\<open>Traverse\<close>: output and queue together hold no node
  twice and only nodes of the graph; the counter of a node is the number of its parents
  not yet in the output; a node is in the output or the queue exactly when all its
  parents are in the output; and every node of the output comes after all its parents.
\<close>

definition kahn_inv :: "'a dag \<Rightarrow> addr list \<Rightarrow> (addr \<rightharpoonup> int) \<Rightarrow> addr list \<Rightarrow> bool" where
  "kahn_inv d queue inDegree out \<longleftrightarrow>
     distinct (out @ queue) \<and> set (out @ queue) \<subseteq> index d \<and>
     (\<forall>x \<in> index d. inDegree x = Some (int (card (set (parents_at (heap d) x) - set out)))) \<and>
     (\<forall>x \<in> index d. x \<in> set (out @ queue) \<longleftrightarrow> set (parents_at (heap d) x) \<subseteq> set out) \<and>
     (\<forall>ys x zs. out = ys @ x # zs \<longrightarrow> set (parents_at (heap d) x) \<subseteq> set ys)"

section \<open>hasAncestor decides upward reachability\<close>

declare hasAncestor_visit.simps [simp del] hasAncestor_loop.simps(2) [simp del]

lemma hasAncestor_sound:
  "fst (hasAncestor_visit fmtv h anc n V) \<Longrightarrow> (n, anc) \<in> (parent_rel h)\<^sup>*"
  "fst (hasAncestor_loop fmtv h anc ps V) \<Longrightarrow> \<exists>p\<in>set ps. (p, anc) \<in> (parent_rel h)\<^sup>*"
proof (induction fmtv h anc n V and fmtv h anc ps V rule: hasAncestor_visit_hasAncestor_loop.induct)
  case (1 fmtv h anc n V)
  show ?case
  proof (cases "n = anc")
    case True
    then show ?thesis by simp
  next
    case False
    with 1 obtain p where p: "p \<in> set (Parents fmtv h n)" "(p, anc) \<in> (parent_rel h)\<^sup>*"
      by (auto simp: hasAncestor_visit.simps)
    then have "(n, p) \<in> parent_rel h" by (simp add: parent_rel_def set_Parents)
    with p(2) show ?thesis by (auto intro: converse_rtrancl_into_rtrancl)
  qed
next
  case (2 fmtv h anc V)
  then show ?case by simp
next
  case (3 fmtv h anc p ps V)
  show ?case
  proof (cases "p \<in> V")
    case True
    with 3 show ?thesis by (auto simp: hasAncestor_loop.simps)
  next
    case False
    obtain x y where xy: "hasAncestor_visit fmtv h anc p V = (x, y)"
      by (cases "hasAncestor_visit fmtv h anc p V")
    show ?thesis
    proof (cases x)
      case True
      with 3(1)[OF False] xy show ?thesis by simp
    next
      case fx: False
      with 3(2)[OF False xy[symmetric]] 3(4) False xy show ?thesis
        by (auto simp: hasAncestor_loop.simps)
    qed
  qed
qed

lemma hasAncestor_closed:
  "hasAncestor_visit fmtv h anc n V = (False, V') \<Longrightarrow>
     insert n V \<subseteq> V' \<and> anc \<notin> V' - V \<and> (\<forall>x\<in>V' - V. set (parents_at h x) \<subseteq> V')"
  "hasAncestor_loop fmtv h anc ps V = (False, V') \<Longrightarrow>
     V \<union> set ps \<subseteq> V' \<and> anc \<notin> V' - V \<and> (\<forall>x\<in>V' - V. set (parents_at h x) \<subseteq> V')"
proof (induction fmtv h anc n V and fmtv h anc ps V arbitrary: V' and V'
        rule: hasAncestor_visit_hasAncestor_loop.induct)
  case (1 fmtv h anc n V)
  from 1(2) have ne: "n \<noteq> anc" by (auto simp: hasAncestor_visit.simps split: if_splits)
  with 1(2) have "hasAncestor_loop fmtv h anc (Parents fmtv h n) (insert n V) = (False, V')"
    by (simp add: hasAncestor_visit.simps)
  from 1(1)[OF ne this]
  have a: "insert n V \<union> set (Parents fmtv h n) \<subseteq> V'" and b: "anc \<notin> V' - insert n V"
    and c: "\<forall>x\<in>V' - insert n V. set (parents_at h x) \<subseteq> V'" by auto
  from a have "set (parents_at h n) \<subseteq> V'" by (simp add: set_Parents)
  with a b c ne show ?case by auto
next
  case (2 fmtv h anc V)
  then show ?case by (auto simp: hasAncestor_loop.simps)
next
  case (3 fmtv h anc p ps V)
  show ?case
  proof (cases "p \<in> V")
    case True
    with 3(4) have "hasAncestor_loop fmtv h anc ps V = (False, V')"
      by (simp add: hasAncestor_loop.simps)
    from 3(3)[OF _ this] True show ?thesis by auto
  next
    case False
    obtain x y where xy: "hasAncestor_visit fmtv h anc p V = (x, y)"
      by (cases "hasAncestor_visit fmtv h anc p V")
    with 3(4) False have fx: "x = False" and rest: "hasAncestor_loop fmtv h anc ps y = (False, V')"
      by (auto simp: hasAncestor_loop.simps split: if_splits bool.splits)
    from 3(1)[OF False] xy fx
    have a1: "insert p V \<subseteq> y" and b1: "anc \<notin> y - V"
      and c1: "\<forall>x\<in>y - V. set (parents_at h x) \<subseteq> y" by auto
    from 3(2)[OF False xy[symmetric] fx rest]
    have a2: "y \<union> set ps \<subseteq> V'" and b2: "anc \<notin> V' - y"
      and c2: "\<forall>x\<in>V' - y. set (parents_at h x) \<subseteq> V'" by auto
    have "\<forall>x\<in>V' - V. set (parents_at h x) \<subseteq> V'"
    proof
      fix x assume "x \<in> V' - V"
      then consider "x \<in> y - V" | "x \<in> V' - y" by auto
      then show "set (parents_at h x) \<subseteq> V'"
      proof cases
        case 1
        with c1 a2 show ?thesis by blast
      next
        case 2
        with c2 show ?thesis by blast
      qed
    qed
    with a1 a2 b1 b2 show ?thesis by auto
  qed
qed

lemma hasAncestor_iff: "hasAncestor fmtv h n anc \<longleftrightarrow> (n, anc) \<in> (parent_rel h)\<^sup>*"
proof
  assume "hasAncestor fmtv h n anc"
  then show "(n, anc) \<in> (parent_rel h)\<^sup>*"
    by (simp add: hasAncestor_def hasAncestor_sound(1))
next
  assume r: "(n, anc) \<in> (parent_rel h)\<^sup>*"
  show "hasAncestor fmtv h n anc"
  proof (rule ccontr)
    assume "\<not> hasAncestor fmtv h n anc"
    then obtain V' where "hasAncestor_visit fmtv h anc n {} = (False, V')"
      by (cases "hasAncestor_visit fmtv h anc n {}") (auto simp: hasAncestor_def)
    from hasAncestor_closed(1)[OF this]
    have n: "n \<in> V'" and anc: "anc \<notin> V'" and cl: "\<forall>x\<in>V'. set (parents_at h x) \<subseteq> V'"
      by auto
    from r have "anc \<in> V'"
    proof (induction rule: rtrancl_induct)
      case base
      then show ?case by (rule n)
    next
      case (step y z)
      then show ?case using cl by (auto simp: parent_rel_def)
    qed
    with anc show False by contradiction
  qed
qed

section \<open>Reachable states satisfy the invariant\<close>

subsection \<open>The store primitives\<close>

lemma length_addChild [simp]: "length (addChild n c h) = length h"
  by (simp add: addChild_def)

lemma length_addParent [simp]: "length (addParent n p h) = length h"
  by (simp add: addParent_def)

lemma length_deleteChild [simp]: "length (deleteChild n c h) = length h"
  by (simp add: deleteChild_def)

lemma length_deleteParent [simp]: "length (deleteParent n p h) = length h"
  by (simp add: deleteParent_def)

lemma data_addChild [simp]: "a < length h \<Longrightarrow> data (addChild n c h ! a) = data (h ! a)"
  by (cases "a = n") (simp_all add: addChild_def)

lemma data_addParent [simp]: "a < length h \<Longrightarrow> data (addParent n p h ! a) = data (h ! a)"
  by (cases "a = n") (simp_all add: addParent_def)

lemma data_deleteChild [simp]: "a < length h \<Longrightarrow> data (deleteChild n c h ! a) = data (h ! a)"
  by (cases "a = n") (simp_all add: deleteChild_def)

lemma data_deleteParent [simp]: "a < length h \<Longrightarrow> data (deleteParent n p h ! a) = data (h ! a)"
  by (cases "a = n") (simp_all add: deleteParent_def)

lemma parents_at_addChild [simp]: "parents_at (addChild n c h) a = parents_at h a"
  by (cases "a = n") (simp_all add: parents_at_def addChild_def)

lemma children_at_addChild:
  "children_at (addChild n c h) a =
     (if a = n \<and> n < length h then List.insert c (children_at h a) else children_at h a)"
  by (cases "a = n") (simp_all add: children_at_def addChild_def)

lemma parents_at_addParent:
  "parents_at (addParent n p h) a =
     (if a = n \<and> n < length h then List.insert p (parents_at h a) else parents_at h a)"
  by (cases "a = n") (simp_all add: parents_at_def addParent_def)

lemma children_at_addParent [simp]: "children_at (addParent n p h) a = children_at h a"
  by (cases "a = n") (simp_all add: children_at_def addParent_def)

lemma parents_at_deleteChild [simp]: "parents_at (deleteChild n c h) a = parents_at h a"
  by (cases "a = n") (simp_all add: parents_at_def deleteChild_def)

lemma children_at_deleteChild:
  "children_at (deleteChild n c h) a =
     (if a = n then removeAll c (children_at h a) else children_at h a)"
  by (cases "a = n") (simp_all add: children_at_def deleteChild_def)

lemma parents_at_deleteParent:
  "parents_at (deleteParent n p h) a =
     (if a = n then removeAll p (parents_at h a) else parents_at h a)"
  by (cases "a = n") (simp_all add: parents_at_def deleteParent_def)

lemma children_at_deleteParent [simp]: "children_at (deleteParent n p h) a = children_at h a"
  by (cases "a = n") (simp_all add: children_at_def deleteParent_def)

lemma parents_at_alloc [simp]: "parents_at (h @ [NewNode v]) a = parents_at h a"
  by (auto simp: parents_at_def nth_append NewNode_def less_Suc_eq)

lemma children_at_alloc [simp]: "children_at (h @ [NewNode v]) a = children_at h a"
  by (auto simp: children_at_def nth_append NewNode_def less_Suc_eq)

text \<open>The two loops of \<^verbatim>\<open>RemoveNode\<close>.\<close>

lemma length_fold_deleteChild [simp]:
  "length (fold (\<lambda>parent h. deleteChild parent n h) ps h) = length h"
  by (induction ps arbitrary: h) simp_all

lemma length_fold_deleteParent [simp]:
  "length (fold (\<lambda>child h. deleteParent child n h) cs h) = length h"
  by (induction cs arbitrary: h) simp_all

lemma data_fold_deleteChild [simp]:
  "a < length h \<Longrightarrow> data (fold (\<lambda>parent h. deleteChild parent n h) ps h ! a) = data (h ! a)"
  by (induction ps arbitrary: h) simp_all

lemma data_fold_deleteParent [simp]:
  "a < length h \<Longrightarrow> data (fold (\<lambda>child h. deleteParent child n h) cs h ! a) = data (h ! a)"
  by (induction cs arbitrary: h) simp_all

lemma parents_at_fold_deleteChild [simp]:
  "parents_at (fold (\<lambda>parent h. deleteChild parent n h) ps h) a = parents_at h a"
  by (induction ps arbitrary: h) simp_all

lemma children_at_fold_deleteParent [simp]:
  "children_at (fold (\<lambda>child h. deleteParent child n h) cs h) a = children_at h a"
  by (induction cs arbitrary: h) simp_all

lemma children_at_fold_deleteChild:
  "children_at (fold (\<lambda>parent h. deleteChild parent n h) ps h) a =
     (if a \<in> set ps then removeAll n (children_at h a) else children_at h a)"
  by (induction ps arbitrary: h) (auto simp: children_at_deleteChild)

lemma parents_at_fold_deleteParent:
  "parents_at (fold (\<lambda>child h. deleteParent child n h) cs h) a =
     (if a \<in> set cs then removeAll n (parents_at h a) else parents_at h a)"
  by (induction cs arbitrary: h) (auto simp: parents_at_deleteParent)

subsection \<open>The index\<close>

lemma index_lt: "index_ok d \<Longrightarrow> a \<in> index d \<Longrightarrow> a < length (heap d)"
  by (auto simp: index_ok_def index_def)

lemma index_Node: "index_ok d \<Longrightarrow> a \<in> index d \<longleftrightarrow> Node (data (heap d ! a)) d = Some a \<and> a < length (heap d)"
  by (force simp: index_ok_def index_def Node_def)

lemma Node_index: "Node v d = Some a \<Longrightarrow> a \<in> index d"
  by (force simp: index_def Node_def dest: map_of_SomeD)

lemma Node_data: "index_ok d \<Longrightarrow> Node v d = Some a \<Longrightarrow> data (heap d ! a) = v"
  by (auto simp: index_ok_def Node_def dest!: map_of_SomeD)

lemma Node_inj: "index_ok d \<Longrightarrow> Node v d = Some a \<Longrightarrow> Node w d = Some a \<Longrightarrow> v = w"
  using Node_data by metis


lemma parents_at_out: "length h \<le> a \<Longrightarrow> parents_at h a = []"
  by (simp add: parents_at_def)

lemma children_at_out: "length h \<le> a \<Longrightarrow> children_at h a = []"
  by (simp add: children_at_def)

subsection \<open>AddNode keeps the invariant\<close>

lemma AddNode_present: "map_of (nodes d) v = Some n \<Longrightarrow> AddNode v d = (n, d)"
  by (simp add: AddNode_unfold)

lemma AddNode_fresh:
  "map_of (nodes d) v = None \<Longrightarrow>
   AddNode v d = (length (heap d),
                  d\<lparr>heap := heap d @ [NewNode v], nodes := nodes d @ [(v, length (heap d))]\<rparr>)"
  by (simp add: AddNode_unfold update_fresh Let_def)

lemma wf_dag_alloc:
  assumes wf: "wf_dag d" and fresh: "map_of (nodes d) v = None"
  shows "wf_dag (d\<lparr>heap := heap d @ [NewNode v], nodes := nodes d @ [(v, length (heap d))]\<rparr>)"
    (is "wf_dag ?d'")
proof -
  let ?n = "length (heap d)"
  from wf have ok: "index_ok d" and cl: "closed d" and mu: "mutual d" and nd: "no_dups d"
    and ac: "acyclic (edges d)" by (simp_all add: wf_dag_def)
  have idx: "index ?d' = insert ?n (index d)" by (auto simp: index_def)
  have n_notin: "?n \<notin> index d" using index_lt[OF ok] by auto
  have pn: "parents_at (heap d) ?n = []" and cn: "children_at (heap d) ?n = []"
    by (simp_all add: parents_at_out children_at_out)
  have v_notin: "v \<notin> fst ` set (nodes d)" using fresh by (simp add: map_of_eq_None_iff)
  have "index_ok ?d'"
    using ok v_notin by (auto simp: index_ok_def nth_append NewNode_def)
  moreover have "closed ?d'"
    using cl pn cn by (auto simp: closed_def idx)
  moreover have "mutual ?d'"
    using mu cl pn cn n_notin unfolding mutual_def closed_def idx by auto
  moreover have "no_dups ?d'"
    using nd pn cn by (auto simp: no_dups_def idx)
  moreover have "edges ?d' = edges d"
    using cn by (auto simp: edges_def idx)
  ultimately show ?thesis using ac by (simp add: wf_dag_def)
qed

lemma wf_dag_AddNode: "wf_dag d \<Longrightarrow> wf_dag (snd (AddNode v d))"
  by (cases "map_of (nodes d) v") (simp_all add: AddNode_fresh AddNode_present wf_dag_alloc)

lemma AddNode_Node: "Node v (snd (AddNode v d)) = Some (fst (AddNode v d))"
  by (cases "map_of (nodes d) v") (simp_all add: AddNode_fresh AddNode_present Node_def map_add_def)

lemma AddNode_keeps_Node: "Node w d = Some a \<Longrightarrow> Node w (snd (AddNode v d)) = Some a"
  by (cases "map_of (nodes d) v") (auto simp: AddNode_fresh AddNode_present Node_def map_add_Some_iff)

lemma AddNode_parents_at [simp]: "parents_at (heap (snd (AddNode v d))) a = parents_at (heap d) a"
  by (cases "map_of (nodes d) v") (simp_all add: AddNode_fresh AddNode_present)

lemma AddNode_children_at [simp]: "children_at (heap (snd (AddNode v d))) a = children_at (heap d) a"
  by (cases "map_of (nodes d) v") (simp_all add: AddNode_fresh AddNode_present)

subsection \<open>AddEdge keeps the invariant\<close>

lemma edges_parent_rel:
  assumes "closed d" and "mutual d"
  shows "edges d \<subseteq> (parent_rel (heap d))\<inverse>"
proof
  fix e assume "e \<in> edges d"
  then obtain x y where e: "e = (x, y)" and x: "x \<in> index d"
    and y: "y \<in> set (children_at (heap d) x)" by (auto simp: edges_def)
  from assms(1) x y have "y \<in> index d" by (auto simp: closed_def)
  with assms(2) x y have "x \<in> set (parents_at (heap d) y)" by (simp add: mutual_def)
  then show "e \<in> (parent_rel (heap d))\<inverse>" by (simp add: e parent_rel_def)
qed

lemma wf_dag_link:
  assumes wf: "wf_dag d" and f: "f \<in> index d" and t: "t \<in> index d"
    and no: "(f, t) \<notin> (parent_rel (heap d))\<^sup>*"
  shows "wf_dag (d\<lparr>heap := addParent t f (addChild f t (heap d))\<rparr>)" (is "wf_dag ?d'")
proof -
  from wf have ok: "index_ok d" and cl: "closed d" and mu: "mutual d" and nd: "no_dups d"
    and ac: "acyclic (edges d)" by (simp_all add: wf_dag_def)
  have idx: "index ?d' = index d" by (simp add: index_def)
  have fl: "f < length (heap d)" and tl: "t < length (heap d)"
    using index_lt[OF ok] f t by auto
  have ch: "\<And>a. children_at (heap ?d') a =
      (if a = f then List.insert t (children_at (heap d) a) else children_at (heap d) a)"
    using fl by (simp add: children_at_addChild)
  have pa: "\<And>a. parents_at (heap ?d') a =
      (if a = t then List.insert f (parents_at (heap d) a) else parents_at (heap d) a)"
    using tl by (simp add: parents_at_addParent)
  have "index_ok ?d'"
    using ok by (auto simp: index_ok_def)
  moreover have "closed ?d'"
    using cl f t unfolding closed_def idx ch pa by auto
  moreover have "mutual ?d'"
    using mu f t unfolding mutual_def idx ch pa by auto
  moreover have "no_dups ?d'"
    using nd unfolding no_dups_def idx ch pa by auto
  moreover have "acyclic (edges ?d')"
  proof -
    have e: "edges ?d' = insert (f, t) (edges d)"
      using f unfolding edges_def idx ch by (auto split: if_splits)
    have "(t, f) \<notin> (edges d)\<^sup>*"
    proof
      assume "(t, f) \<in> (edges d)\<^sup>*"
      then have "(t, f) \<in> ((parent_rel (heap d))\<inverse>)\<^sup>*"
        using rtrancl_mono[OF edges_parent_rel[OF cl mu]] by blast
      then have "(f, t) \<in> (parent_rel (heap d))\<^sup>*"
        by (simp add: rtrancl_converse)
      with no show False by contradiction
    qed
    with ac show ?thesis unfolding e by (simp add: acyclic_insert)
  qed
  ultimately show ?thesis by (simp add: wf_dag_def)
qed


lemma AddEdge_unfold:
  "AddEdge fmtv from to d =
     (let d2 = snd (AddNode to (snd (AddNode from d)));
          fromNode = fst (AddNode from d);
          toNode = fst (AddNode to (snd (AddNode from d)))
      in if hasAncestor fmtv (heap d2) fromNode toNode then (Some ErrCycleDetected, d2)
         else (None, d2\<lparr>heap := addParent toNode fromNode (addChild fromNode toNode (heap d2))\<rparr>))"
  by (simp add: AddEdge_def Let_def split: prod.splits)

lemma wf_dag_AddEdge:
  assumes "wf_dag d"
  shows "wf_dag (snd (AddEdge fmtv from to d))"
proof -
  let ?d1 = "snd (AddNode from d)" and ?f = "fst (AddNode from d)"
  let ?d2 = "snd (AddNode to ?d1)" and ?t = "fst (AddNode to ?d1)"
  have wf2: "wf_dag ?d2" using assms by (simp add: wf_dag_AddNode)
  have f: "?f \<in> index ?d2"
    by (rule Node_index[OF AddNode_keeps_Node[OF AddNode_Node]])
  have t: "?t \<in> index ?d2" by (rule Node_index[OF AddNode_Node])
  show ?thesis
  proof (cases "hasAncestor fmtv (heap ?d2) ?f ?t")
    case True
    then show ?thesis using wf2 by (simp add: AddEdge_unfold Let_def)
  next
    case False
    then have "(?f, ?t) \<notin> (parent_rel (heap ?d2))\<^sup>*" by (simp add: hasAncestor_iff)
    from wf_dag_link[OF wf2 f t this] False show ?thesis by (simp add: AddEdge_unfold Let_def)
  qed
qed

subsection \<open>RemoveNode, RemoveEdge and Clear keep the invariant\<close>

lemma index_delete:
  assumes ok: "index_ok d" and n: "map_of (nodes d) v = Some n"
  shows "snd ` set (AList.delete v (nodes d)) = index d - {n}"
proof -
  have a: "\<And>w a. (w, a) \<in> set (nodes d) \<Longrightarrow> a = n \<longleftrightarrow> w = v"
  proof -
    fix w a assume wa: "(w, a) \<in> set (nodes d)"
    from ok have dk: "distinct (map fst (nodes d))" by (simp add: index_ok_def)
    from map_of_SomeD[OF n] have vn: "(v, n) \<in> set (nodes d)" .
    from ok wa vn have "data (heap d ! a) = w" "data (heap d ! n) = v"
      by (auto simp: index_ok_def)
    moreover have "w = v \<Longrightarrow> a = n"
      using dk wa vn by (metis map_of_is_SomeI option.inject)
    ultimately show "a = n \<longleftrightarrow> w = v" by auto
  qed
  show ?thesis
    unfolding index_def AList.delete_eq using a by force
qed

lemma wf_dag_RemoveNode:
  assumes wf: "wf_dag d"
  shows "wf_dag (RemoveNode v d)"
proof (cases "map_of (nodes d) v")
  case None
  then show ?thesis using wf by (simp add: RemoveNode_def)
next
  case (Some n)
  from wf have ok: "index_ok d" and cl: "closed d" and mu: "mutual d" and nd: "no_dups d"
    and ac: "acyclic (edges d)" by (simp_all add: wf_dag_def)
  define h1 where "h1 = fold (\<lambda>parent h. deleteChild parent n h) (parents_at (heap d) n) (heap d)"
  define h2 where "h2 = fold (\<lambda>child h. deleteParent child n h) (children_at h1 n) h1"
  define d' where "d' = d\<lparr>heap := h2, nodes := AList.delete v (nodes d)\<rparr>"
  have d': "RemoveNode v d = d'"
    using Some by (simp add: RemoveNode_def d'_def h2_def h1_def Let_def)
  have n: "n \<in> index d" using Some by (auto intro: Node_index simp: Node_def)
  have idx: "index d' = index d - {n}"
    using index_delete[OF ok Some] by (simp add: index_def d'_def)
  have len: "length h2 = length (heap d)" by (simp add: h2_def h1_def)
  have ch1: "\<And>a. children_at h1 a =
      (if a \<in> set (parents_at (heap d) n) then removeAll n (children_at (heap d) a)
       else children_at (heap d) a)"
    by (simp add: h1_def children_at_fold_deleteChild)
  have ch: "\<And>a. children_at (heap d') a = children_at h1 a"
    by (simp add: d'_def h2_def)
  have pa: "\<And>a. parents_at (heap d') a =
      (if a \<in> set (children_at h1 n) then removeAll n (parents_at (heap d) a)
       else parents_at (heap d) a)"
    by (simp add: d'_def h2_def parents_at_fold_deleteParent h1_def)
  have in_ch1: "\<And>a. a \<noteq> n \<Longrightarrow> a \<in> set (children_at h1 n) \<longleftrightarrow> a \<in> set (children_at (heap d) n)"
    by (simp add: ch1)
  have no_n_child: "\<And>a. a \<in> index d \<Longrightarrow> a \<noteq> n \<Longrightarrow> n \<notin> set (children_at (heap d') a)"
    using mu n by (auto simp: ch ch1 mutual_def)
  have no_n_parent: "\<And>a. a \<in> index d \<Longrightarrow> a \<noteq> n \<Longrightarrow> n \<notin> set (parents_at (heap d') a)"
    using mu n by (auto simp: pa in_ch1 mutual_def)
  have sub_ch: "\<And>a. set (children_at (heap d') a) \<subseteq> set (children_at (heap d) a)"
    by (auto simp: ch ch1)
  have sub_pa: "\<And>a. set (parents_at (heap d') a) \<subseteq> set (parents_at (heap d) a)"
    by (auto simp: pa)
  have keep_ch: "\<And>a y. y \<noteq> n \<Longrightarrow>
      y \<in> set (children_at (heap d') a) \<longleftrightarrow> y \<in> set (children_at (heap d) a)"
    by (auto simp: ch ch1)
  have keep_pa: "\<And>a x. x \<noteq> n \<Longrightarrow>
      x \<in> set (parents_at (heap d') a) \<longleftrightarrow> x \<in> set (parents_at (heap d) a)"
    by (auto simp: pa)
  have "index_ok d'"
  proof -
    have "distinct (map fst (AList.delete v (nodes d)))"
      using ok by (simp add: index_ok_def distinct_delete)
    moreover have "\<forall>(w, a) \<in> set (AList.delete v (nodes d)). a < length h2 \<and> data (h2 ! a) = w"
    proof (clarify)
      fix w a assume "(w, a) \<in> set (AList.delete v (nodes d))"
      then have "(w, a) \<in> set (nodes d)" by (auto simp: AList.delete_eq)
      with ok have "a < length (heap d)" "data (heap d ! a) = w"
        by (auto simp: index_ok_def)
      then show "a < length h2 \<and> data (h2 ! a) = w"
        using len by (simp add: h2_def h1_def)
    qed
    ultimately show ?thesis by (simp add: index_ok_def d'_def)
  qed
  moreover have "closed d'"
    unfolding closed_def idx
  proof (intro ballI conjI subsetI)
    fix a x assume a: "a \<in> index d - {n}" and x: "x \<in> set (parents_at (heap d') a)"
    from x sub_pa have "x \<in> set (parents_at (heap d) a)" by blast
    with cl a have "x \<in> index d" by (auto simp: closed_def)
    moreover have "x \<noteq> n" using no_n_parent[of a] a x by auto
    ultimately show "x \<in> index d - {n}" by simp
  next
    fix a x assume a: "a \<in> index d - {n}" and x: "x \<in> set (children_at (heap d') a)"
    from x sub_ch have "x \<in> set (children_at (heap d) a)" by blast
    with cl a have "x \<in> index d" by (auto simp: closed_def)
    moreover have "x \<noteq> n" using no_n_child[of a] a x by auto
    ultimately show "x \<in> index d - {n}" by simp
  qed
  moreover have "mutual d'"
    using mu unfolding mutual_def idx by (simp add: keep_ch keep_pa)
  moreover have "no_dups d'"
    using nd unfolding no_dups_def idx by (auto simp: ch ch1 pa distinct_removeAll)
  moreover have "acyclic (edges d')"
  proof -
    have "edges d' \<subseteq> edges d" using sub_ch by (auto simp: edges_def idx)
    then show ?thesis using ac by (rule acyclic_subset[rotated])
  qed
  ultimately show ?thesis by (simp add: wf_dag_def d')
qed

lemma wf_dag_RemoveEdge:
  assumes wf: "wf_dag d"
  shows "wf_dag (RemoveEdge from to d)"
proof (cases "\<exists>f t. map_of (nodes d) from = Some f \<and> map_of (nodes d) to = Some t")
  case False
  then have "RemoveEdge from to d = d"
    by (auto simp: RemoveEdge_def split: option.splits)
  then show ?thesis using wf by simp
next
  case True
  then obtain f t where f: "map_of (nodes d) from = Some f" and t: "map_of (nodes d) to = Some t"
    by blast
  from wf have ok: "index_ok d" and cl: "closed d" and mu: "mutual d" and nd: "no_dups d"
    and ac: "acyclic (edges d)" by (simp_all add: wf_dag_def)
  define d' where "d' = d\<lparr>heap := deleteParent t f (deleteChild f t (heap d))\<rparr>"
  have d': "RemoveEdge from to d = d'" using f t by (simp add: RemoveEdge_def d'_def)
  have idx: "index d' = index d" by (simp add: index_def d'_def)
  have ch: "\<And>a. children_at (heap d') a =
      (if a = f then removeAll t (children_at (heap d) a) else children_at (heap d) a)"
    by (simp add: d'_def children_at_deleteChild)
  have pa: "\<And>a. parents_at (heap d') a =
      (if a = t then removeAll f (parents_at (heap d) a) else parents_at (heap d) a)"
    by (simp add: d'_def parents_at_deleteParent)
  have "index_ok d'" using ok by (auto simp: index_ok_def d'_def)
  moreover have "closed d'" using cl unfolding closed_def idx ch pa by auto
  moreover have "mutual d'" using mu unfolding mutual_def idx ch pa by auto
  moreover have "no_dups d'" using nd unfolding no_dups_def idx ch pa by (auto simp: distinct_removeAll)
  moreover have "acyclic (edges d')"
  proof -
    have "edges d' \<subseteq> edges d" unfolding edges_def idx ch by (auto split: if_splits)
    then show ?thesis using ac by (rule acyclic_subset[rotated])
  qed
  ultimately show ?thesis by (simp add: wf_dag_def d')
qed

lemma wf_dag_NewDAG: "wf_dag NewDAG"
  by (simp add: wf_dag_def NewDAG_def index_ok_def closed_def mutual_def no_dups_def
        edges_def index_def acyclic_def)

lemma wf_dag_Clear: "wf_dag (Clear d)"
  by (simp add: wf_dag_def Clear_def index_ok_def closed_def mutual_def no_dups_def
        edges_def index_def acyclic_def)

lemma reachable_wf_dag: "reachable fmtv d \<Longrightarrow> wf_dag d"
  by (induction rule: reachable.induct)
     (simp_all add: wf_dag_NewDAG wf_dag_AddNode wf_dag_AddEdge wf_dag_RemoveNode
        wf_dag_RemoveEdge wf_dag_Clear)

subsection \<open>An example state\<close>

lemma example_1_2_eq:
  "example_1_2 = \<lparr>heap = [\<lparr>data = 1, parents = [], children = [1]\<rparr>,
                           \<lparr>data = 2, parents = [0], children = []\<rparr>],
                   nodes = [(1, 0), (2, 1)]\<rparr>"
  by (simp add: example_1_2_def AddEdge_def AddNode_unfold NewDAG_def NewNode_def hasAncestor_def
        hasAncestor_visit.simps Parents_def parents_at_def addChild_def addParent_def)

lemma example_1_2_reachable: "reachable fmt_int example_1_2"
  unfolding example_1_2_def by (intro reach_AddEdge reach_NewDAG)


section \<open>Breadth-first search finds a shortest path\<close>

lemma is_path_single: "is_path h [a] a a"
  by (simp add: is_path_def)

lemma is_path_snoc:
  "is_path h (q @ [x]) a b \<longleftrightarrow>
     b = x \<and> (if q = [] then a = x
              else is_path h q a (last q) \<and> x \<in> set (children_at h (last q)))"
  by (auto simp: is_path_def successively_append_iff)

lemma is_path_length: "is_path h q a b \<Longrightarrow> 1 \<le> length q"
  by (cases q) (simp_all add: is_path_def)

lemma ShortestPath_child_seen: "c \<in> V \<Longrightarrow> ShortestPath_child p c (q, V) = (q, V)"
  by (simp add: ShortestPath_child_def)

lemma ShortestPath_child_new:
  "c \<notin> V \<Longrightarrow> ShortestPath_child p c (q, V) = (q @ [(c, p @ [c])], insert c V)"
  by (simp add: ShortestPath_child_def)

lemma ShortestPath_fold:
  "fold (ShortestPath_child p) cs (q, V) = (q', V') \<Longrightarrow>
     V' = V \<union> set cs \<and>
     (\<exists>ext. q' = q @ ext \<and> set ext = (\<lambda>c. (c, p @ [c])) ` (set cs - V))"
proof (induction cs arbitrary: q V)
  case Nil
  then show ?case by simp
next
  case (Cons c cs)
  show ?case
  proof (cases "c \<in> V")
    case True
    with Cons.prems have "fold (ShortestPath_child p) cs (q, V) = (q', V')"
      by (simp add: ShortestPath_child_seen)
    from Cons.IH[OF this] True show ?thesis by auto
  next
    case False
    with Cons.prems
    have "fold (ShortestPath_child p) cs (q @ [(c, p @ [c])], insert c V) = (q', V')"
      by (simp add: ShortestPath_child_new)
    from Cons.IH[OF this] obtain ext where v: "V' = insert c V \<union> set cs"
      and q: "q' = (q @ [(c, p @ [c])]) @ ext"
      and e: "set ext = (\<lambda>c. (c, p @ [c])) ` (set cs - insert c V)" by blast
    have "set ((c, p @ [c]) # ext) = (\<lambda>c. (c, p @ [c])) ` (set (c # cs) - V)"
      using e False by auto
    with v q show ?thesis by (intro conjI exI[of _ "(c, p @ [c]) # ext"]) auto
  qed
qed

lemma sp_inv_init: "sp_inv h f t [(f, [f])] {f}"
  by (auto simp: sp_inv_def is_path_single dest: is_path_length)

lemma sp_inv_near:
  assumes inv: "sp_inv h f t ((n, p) # rest) V"
  shows "is_path h q f x \<Longrightarrow> length q \<le> length p \<Longrightarrow> x \<in> V"
proof (induction q arbitrary: x rule: rev_induct)
  case Nil
  then show ?case by (simp add: is_path_def)
next
  case (snoc z q)
  from snoc.prems(1) have zx: "z = x" by (simp add: is_path_snoc)
  show ?case
  proof (cases "q = []")
    case True
    with snoc.prems(1) have "x = f" by (simp add: is_path_def)
    with inv show ?thesis by (simp add: sp_inv_def)
  next
    case False
    let ?y = "last q"
    from snoc.prems(1) False have py: "is_path h q f ?y" and xy: "x \<in> set (children_at h ?y)"
      by (simp_all add: is_path_snoc)
    from snoc.prems(2) have len: "length q < length p" by simp
    with snoc.IH[OF py] have yV: "?y \<in> V" by simp
    have "?y \<notin> fst ` set ((n, p) # rest)"
    proof
      assume "?y \<in> fst ` set ((n, p) # rest)"
      then obtain py where m: "(?y, py) \<in> set ((n, p) # rest)" by force
      with inv py have "length py \<le> length q" by (auto simp: sp_inv_def)
      moreover from inv m have "length p \<le> length py"
        by (auto simp: sp_inv_def)
      ultimately show False using len by simp
    qed
    with inv yV xy show ?thesis unfolding sp_inv_def by blast
  qed
qed

lemma sp_inv_done:
  assumes inv: "sp_inv h f t [] V"
  shows "is_path h q f x \<Longrightarrow> x \<in> V"
proof (induction q arbitrary: x rule: rev_induct)
  case Nil
  then show ?case by (simp add: is_path_def)
next
  case (snoc z q)
  show ?case
  proof (cases "q = []")
    case True
    with snoc.prems have "x = f" by (simp add: is_path_def)
    with inv show ?thesis by (simp add: sp_inv_def)
  next
    case False
    with snoc.prems have py: "is_path h q f (last q)" and xy: "x \<in> set (children_at h (last q))"
      by (simp_all add: is_path_snoc)
    from snoc.IH[OF py] have "last q \<in> V" .
    with inv xy show ?thesis unfolding sp_inv_def by auto
  qed
qed


lemma sorted_map_const: "(\<forall>e \<in> set xs. g e = (k::nat)) \<Longrightarrow> sorted (map g xs)"
  by (induction xs) auto

lemma sp_inv_step:
  assumes inv: "sp_inv h f t ((n, p) # rest) V" and nt: "n \<noteq> t"
    and fold: "fold (ShortestPath_child p) (Children fmtv h n) (rest, V) = (q', V')"
  shows "sp_inv h f t q' V'"
proof -
  let ?len = "\<lambda>e :: addr \<times> addr list. length (snd e)"
  from ShortestPath_fold[OF fold] obtain ext where
    V': "V' = V \<union> set (children_at h n)" and q': "q' = rest @ ext"
    and ext: "set ext = (\<lambda>c. (c, p @ [c])) ` (set (children_at h n) - V)"
    by (auto simp: set_Children)
  from inv have fV: "f \<in> V" and nV: "n \<in> V" and restV: "fst ` set rest \<subseteq> V"
    and pn: "is_path h p f n"
    and Mrest: "\<forall>(m, pm) \<in> set rest. is_path h pm f m \<and> (\<forall>q. is_path h q f m \<longrightarrow> length pm \<le> length q)"
    and P: "\<forall>y \<in> V - fst ` set ((n, p) # rest). set (children_at h y) \<subseteq> V \<and> y \<noteq> t"
    and srt: "sorted (map ?len rest)"
    and lo: "\<forall>e \<in> set rest. length p \<le> ?len e"
    and hi: "\<forall>e \<in> set rest. ?len e \<le> Suc (length p)"
    by (auto simp: sp_inv_def)
  have ext_len: "\<forall>e \<in> set ext. ?len e = Suc (length p)" using ext by auto
  have p_ne: "p \<noteq> []" and p_last: "last p = n" using pn by (simp_all add: is_path_def)
  have 1: "f \<in> V'" using fV V' by simp
  have 2: "fst ` set q' \<subseteq> V'" using restV ext V' q' by auto
  have 3: "\<forall>(m, pm) \<in> set q'. is_path h pm f m \<and> (\<forall>q. is_path h q f m \<longrightarrow> length pm \<le> length q)"
  proof (clarify)
    fix m pm assume "(m, pm) \<in> set q'"
    then consider "(m, pm) \<in> set rest" | "(m, pm) \<in> set ext" using q' by auto
    then show "is_path h pm f m \<and> (\<forall>q. is_path h q f m \<longrightarrow> length pm \<le> length q)"
    proof cases
      case 1
      with Mrest show ?thesis by auto
    next
      case 2
      with ext have pm: "pm = p @ [m]" and mc: "m \<in> set (children_at h n)" and mV: "m \<notin> V"
        by auto
      have "is_path h pm f m" using pn p_ne p_last mc by (simp add: pm is_path_snoc)
      moreover have "\<forall>q. is_path h q f m \<longrightarrow> length pm \<le> length q"
      proof (intro allI impI)
        fix q assume q: "is_path h q f m"
        show "length pm \<le> length q"
        proof (rule ccontr)
          assume "\<not> length pm \<le> length q"
          then have "length q \<le> length p" by (simp add: pm)
          from sp_inv_near[OF inv q this] mV show False by contradiction
        qed
      qed
      ultimately show ?thesis by simp
    qed
  qed
  have 4: "\<forall>y \<in> V' - fst ` set q'. set (children_at h y) \<subseteq> V' \<and> y \<noteq> t"
  proof
    fix y assume y: "y \<in> V' - fst ` set q'"
    have "y \<in> V"
    proof (rule ccontr)
      assume "y \<notin> V"
      with y V' have "y \<in> set (children_at h n) - V" by auto
      with ext have "(y, p @ [y]) \<in> set ext" by auto
      then have "y \<in> fst ` set q'" using q' by force
      with y show False by simp
    qed
    show "set (children_at h y) \<subseteq> V' \<and> y \<noteq> t"
    proof (cases "y = n")
      case True
      then show ?thesis using V' nt by auto
    next
      case False
      with y \<open>y \<in> V\<close> q' have "y \<in> V - fst ` set ((n, p) # rest)" by auto
      with P V' show ?thesis by blast
    qed
  qed
  have 5: "sorted (map ?len q')"
    using srt hi ext_len sorted_map_const[of ext ?len "Suc (length p)"]
    by (auto simp: q' sorted_append)
  have 6: "\<forall>e \<in> set q'. ?len e \<le> Suc (?len (hd q'))"
  proof
    fix e assume e: "e \<in> set q'"
    then have "q' \<noteq> []" by auto
    then have "hd q' \<in> set q'" by simp
    then have "length p \<le> ?len (hd q')" using lo ext_len q' by auto
    moreover have "?len e \<le> Suc (length p)" using e hi ext_len q' by auto
    ultimately show "?len e \<le> Suc (?len (hd q'))" by simp
  qed
  from 1 2 3 4 5 6 show ?thesis unfolding sp_inv_def by blast
qed

declare ShortestPath_loop.simps [simp del]

lemma ShortestPath_loop_correct:
  "sp_inv h f t queue V \<Longrightarrow>
     (case ShortestPath_loop fmtv h t queue V of
        None \<Rightarrow> \<forall>q. \<not> is_path h q f t
      | Some p \<Rightarrow> is_path h p f t \<and> (\<forall>q. is_path h q f t \<longrightarrow> length p \<le> length q))"
proof (induction fmtv h t queue V rule: ShortestPath_loop.induct)
  case (1 fmtv h toNode visited)
  have "\<forall>q. \<not> is_path h q f toNode"
  proof (intro allI notI)
    fix q assume "is_path h q f toNode"
    from sp_inv_done[OF 1 this] have "toNode \<in> visited" .
    with 1 show False by (auto simp: sp_inv_def)
  qed
  then show ?case by (simp add: ShortestPath_loop.simps)
next
  case (2 fmtv h toNode current queue visited)
  obtain n p where cur: "current = (n, p)" by (cases current)
  show ?case
  proof (cases "n = toNode")
    case True
    with 2(2) cur show ?thesis by (simp add: ShortestPath_loop.simps sp_inv_def)
  next
    case False
    obtain q' V' where
      fold: "fold (ShortestPath_child p) (Children fmtv h n) (queue, visited) = (q', V')"
      by (cases "fold (ShortestPath_child p) (Children fmtv h n) (queue, visited)")
    have inv': "sp_inv h f toNode q' V'"
      using sp_inv_step[OF _ False fold] 2(2) cur by simp
    have "ShortestPath_loop fmtv h toNode (current # queue) visited
            = ShortestPath_loop fmtv h toNode q' V'"
      using False cur fold by (simp add: ShortestPath_loop.simps)
    moreover have "case ShortestPath_loop fmtv h toNode q' V' of
        None \<Rightarrow> \<forall>q. \<not> is_path h q f toNode
      | Some p \<Rightarrow> is_path h p f toNode \<and> (\<forall>q. is_path h q f toNode \<longrightarrow> length p \<le> length q)"
      using 2(1)[OF _ _ _ inv', of "(q', V')"] False cur fold by simp
    ultimately show ?thesis by simp
  qed
qed


lemma is_path_reachable: "(\<exists>q. is_path h q a b) \<longleftrightarrow> (a, b) \<in> (child_rel h)\<^sup>*"
proof
  assume "\<exists>q. is_path h q a b"
  then obtain q where "is_path h q a b" by blast
  then show "(a, b) \<in> (child_rel h)\<^sup>*"
  proof (induction q arbitrary: b rule: rev_induct)
    case Nil
    then show ?case by (simp add: is_path_def)
  next
    case (snoc x q)
    show ?case
    proof (cases "q = []")
      case True
      with snoc.prems show ?thesis by (auto simp: is_path_def)
    next
      case False
      with snoc.prems have "is_path h q a (last q)" "b \<in> set (children_at h (last q))"
        by (simp_all add: is_path_snoc)
      with snoc.IH[of "last q"] show ?thesis
        by (auto simp: child_rel_def intro: rtrancl_into_rtrancl)
    qed
  qed
next
  assume "(a, b) \<in> (child_rel h)\<^sup>*"
  then show "\<exists>q. is_path h q a b"
  proof (induction rule: rtrancl_induct)
    case base
    show ?case using is_path_single by blast
  next
    case (step y z)
    then obtain q where q: "is_path h q a y" by blast
    then have "q \<noteq> []" "last q = y" by (simp_all add: is_path_def)
    with q step(2) have "is_path h (q @ [z]) a z"
      by (simp add: is_path_snoc child_rel_def)
    then show ?case by blast
  qed
qed

lemma example_paths_eq:
  "example_paths =
     \<lparr>heap = [\<lparr>data = 1, parents = [], children = [3, 1]\<rparr>,
              \<lparr>data = 2, parents = [0], children = [4, 2]\<rparr>,
              \<lparr>data = 3, parents = [3, 1], children = []\<rparr>,
              \<lparr>data = 4, parents = [0], children = [2]\<rparr>,
              \<lparr>data = 5, parents = [1], children = []\<rparr>,
              \<lparr>data = 6, parents = [], children = [6]\<rparr>,
              \<lparr>data = 7, parents = [5], children = []\<rparr>],
      nodes = [(1, 0), (2, 1), (3, 2), (4, 3), (5, 4), (6, 5), (7, 6)]\<rparr>"
  unfolding example_paths_def by code_simp

lemma example_paths_1_5: "ShortestPath fmt_int 1 5 example_paths = Some [0, 1, 4]"
  unfolding example_paths_eq by code_simp

lemma example_paths_1_7: "ShortestPath fmt_int 1 7 example_paths = None"
  unfolding example_paths_eq by code_simp

section \<open>Traverse is a topological sort\<close>

lemma Traverse_child_eq:
  "Traverse_child c (deg, q) =
     (deg(c \<mapsto> deg_of deg c - 1), if deg_of deg c - 1 = 0 then q @ [c] else q)"
  by (simp add: Traverse_child_def deg_of_def Let_def)

lemma Traverse_fold:
  "distinct cs \<Longrightarrow>
   fold Traverse_child cs (deg, q) =
     ((\<lambda>x. if x \<in> set cs then Some (deg_of deg x - 1) else deg x),
      q @ filter (\<lambda>c. deg_of deg c - 1 = 0) cs)"
proof (induction cs arbitrary: deg q)
  case Nil
  then show ?case by simp
next
  case (Cons c cs)
  let ?deg1 = "deg(c \<mapsto> deg_of deg c - 1)"
  let ?q1 = "if deg_of deg c - 1 = 0 then q @ [c] else q"
  from Cons.prems have c: "c \<notin> set cs" and dcs: "distinct cs" by simp_all
  have same: "\<And>x. x \<in> set cs \<Longrightarrow> deg_of ?deg1 x = deg_of deg x"
    using c by (auto simp: deg_of_def)
  have "fold Traverse_child (c # cs) (deg, q) = fold Traverse_child cs (?deg1, ?q1)"
    by (simp add: Traverse_child_eq)
  also have "\<dots> = ((\<lambda>x. if x \<in> set cs then Some (deg_of ?deg1 x - 1) else ?deg1 x),
                    ?q1 @ filter (\<lambda>c. deg_of ?deg1 c - 1 = 0) cs)"
    by (rule Cons.IH[OF dcs])
  also have "(\<lambda>x. if x \<in> set cs then Some (deg_of ?deg1 x - 1) else ?deg1 x)
           = (\<lambda>x. if x \<in> set (c # cs) then Some (deg_of deg x - 1) else deg x)"
    using same by (auto simp: fun_eq_iff)
  also have "filter (\<lambda>c. deg_of ?deg1 c - 1 = 0) cs = filter (\<lambda>c. deg_of deg c - 1 = 0) cs"
    using same by (auto intro: filter_cong)
  also have "?q1 @ filter (\<lambda>c. deg_of deg c - 1 = 0) cs
           = q @ filter (\<lambda>c. deg_of deg c - 1 = 0) (c # cs)"
    by simp
  finally show ?case .
qed

lemma inDegree_init_fold:
  "fold (\<lambda>(_, node) inDegree. inDegree(node \<mapsto> int (length (parents_at h node)))) ns m a =
     (if a \<in> snd ` set ns then Some (int (length (parents_at h a))) else m a)"
  by (induction ns arbitrary: m) (auto split: prod.splits)

lemma inDegree_init_eq:
  "inDegree_init h ns a =
     (if a \<in> snd ` set ns then Some (int (length (parents_at h a))) else None)"
  by (simp add: inDegree_init_def inDegree_init_fold)

lemma dom_inDegree_init: "dom (inDegree_init (heap d) (nodes d)) = index d"
  by (auto simp: inDegree_init_eq index_def dom_def)


lemma distinct_Children: "distinct (children_at h n) \<Longrightarrow> distinct (Children fmtv h n)"
  by (simp add: Children_def)

lemma kahn_inv_init:
  assumes wf: "wf_dag d" and dist: "distinct order" and ord: "set order = index d"
  shows "kahn_inv d (filter (\<lambda>node. inDegree_init (heap d) (nodes d) node = Some 0) order)
           (inDegree_init (heap d) (nodes d)) []"
proof -
  from wf have nd: "no_dups d" by (simp add: wf_dag_def)
  have deg: "\<And>x. x \<in> index d \<Longrightarrow>
      inDegree_init (heap d) (nodes d) x = Some (int (card (set (parents_at (heap d) x))))"
  proof -
    fix x assume x: "x \<in> index d"
    with nd have "distinct (parents_at (heap d) x)" by (simp add: no_dups_def)
    then have "card (set (parents_at (heap d) x)) = length (parents_at (heap d) x)"
      by (rule distinct_card)
    with x show "inDegree_init (heap d) (nodes d) x
        = Some (int (card (set (parents_at (heap d) x))))"
      by (simp add: inDegree_init_eq index_def)
  qed
  have "\<And>x. x \<in> index d \<Longrightarrow>
      inDegree_init (heap d) (nodes d) x = Some 0 \<longleftrightarrow> set (parents_at (heap d) x) = {}"
    by (simp add: deg)
  then show ?thesis
    unfolding kahn_inv_def using dist ord deg by auto
qed

lemma kahn_inv_step:
  assumes wf: "wf_dag d" and inv: "kahn_inv d (current # rest) deg out"
    and fold: "fold Traverse_child (Children fmtv (heap d) current) (deg, rest) = (deg', q')"
  shows "kahn_inv d q' deg' (out @ [current])"
proof -
  let ?h = "heap d" and ?I = "index d"
  let ?cs = "Children fmtv ?h current"
  let ?par = "\<lambda>x. set (parents_at ?h x)"
  from wf have cl: "closed d" and mu: "mutual d" and nd: "no_dups d"
    by (simp_all add: wf_dag_def)
  from inv have dist: "distinct (out @ current # rest)" and sub: "set (out @ current # rest) \<subseteq> ?I"
    and degs: "\<forall>x \<in> ?I. deg x = Some (int (card (?par x - set out)))"
    and mem: "\<forall>x \<in> ?I. x \<in> set (out @ current # rest) \<longleftrightarrow> ?par x \<subseteq> set out"
    and topo: "\<forall>ys x zs. out = ys @ x # zs \<longrightarrow> ?par x \<subseteq> set ys"
    by (simp_all add: kahn_inv_def)
  have cur: "current \<in> ?I" and cur_out: "current \<notin> set out" using dist sub by auto
  have cur_par: "?par current \<subseteq> set out" using mem cur by auto
  have dcs: "distinct ?cs" using nd cur by (simp add: distinct_Children no_dups_def)
  have cs_I: "set ?cs \<subseteq> ?I" using cl cur by (auto simp: set_Children closed_def)
  have child_iff: "\<And>x. x \<in> ?I \<Longrightarrow> x \<in> set ?cs \<longleftrightarrow> current \<in> ?par x"
    using mu cur by (simp add: set_Children mutual_def)
  from fold Traverse_fold[OF dcs, of deg rest]
  have deg': "deg' = (\<lambda>x. if x \<in> set ?cs then Some (deg_of deg x - 1) else deg x)"
    and q': "q' = rest @ filter (\<lambda>c. deg_of deg c - 1 = 0) ?cs" by simp_all
  have fin: "\<And>x. finite (?par x - set out)" by simp
  have degs': "\<forall>x \<in> ?I. deg' x = Some (int (card (?par x - set (out @ [current]))))"
  proof
    fix x assume x: "x \<in> ?I"
    have eq: "?par x - set (out @ [current]) = (?par x - set out) - {current}" by auto
    from degs x have d1: "deg x = Some (int (card (?par x - set out)))" by simp
    have "deg' x = Some (int (card ((?par x - set out) - {current})))"
    proof (cases "x \<in> set ?cs")
      case True
      then have "current \<in> ?par x - set out" using child_iff[OF x] cur_out by simp
      then have "card (?par x - set out) = Suc (card ((?par x - set out) - {current}))"
        by (rule card.remove[OF fin])
      moreover have "deg' x = Some (deg_of deg x - 1)" using True by (simp add: deg')
      ultimately show ?thesis using d1 by (simp add: deg_of_def)
    next
      case False
      then have "current \<notin> ?par x" using child_iff[OF x] by simp
      then have "(?par x - set out) - {current} = ?par x - set out" by auto
      moreover have "deg' x = deg x" using False by (simp add: deg')
      ultimately show ?thesis using d1 by simp
    qed
    then show "deg' x = Some (int (card (?par x - set (out @ [current]))))"
      by (simp only: eq)
  qed
  have new_iff: "\<And>x. x \<in> set (filter (\<lambda>c. deg_of deg c - 1 = 0) ?cs) \<longleftrightarrow>
      x \<in> ?I \<and> current \<in> ?par x \<and> ?par x \<subseteq> set (out @ [current])"
  proof -
    fix x
    show "x \<in> set (filter (\<lambda>c. deg_of deg c - 1 = 0) ?cs) \<longleftrightarrow>
      x \<in> ?I \<and> current \<in> ?par x \<and> ?par x \<subseteq> set (out @ [current])"
    proof (cases "x \<in> set ?cs")
      case False
      then show ?thesis using child_iff[of x] by auto
    next
      case True
      then have x: "x \<in> ?I" using cs_I by auto
      from degs' x have "deg' x = Some (int (card (?par x - set (out @ [current]))))"
        by blast
      moreover have "deg' x = Some (deg_of deg x - 1)" using True by (simp add: deg')
      ultimately have "Some (deg_of deg x - 1)
          = Some (int (card (?par x - set (out @ [current]))))"
        by simp
      then have "deg_of deg x - 1 = 0 \<longleftrightarrow> card (?par x - set (out @ [current])) = 0" by simp
      also have "\<dots> \<longleftrightarrow> ?par x \<subseteq> set (out @ [current])" by auto
      finally show ?thesis using True x child_iff[OF x] by simp
    qed
  qed
  have 1: "distinct ((out @ [current]) @ q')"
  proof -
    have "distinct (filter (\<lambda>c. deg_of deg c - 1 = 0) ?cs)" using dcs by simp
    moreover have "\<And>x. x \<in> set (filter (\<lambda>c. deg_of deg c - 1 = 0) ?cs) \<Longrightarrow>
        x \<notin> set (out @ current # rest)"
    proof
      fix x assume a: "x \<in> set (filter (\<lambda>c. deg_of deg c - 1 = 0) ?cs)"
        and b: "x \<in> set (out @ current # rest)"
      from a new_iff[of x] have x: "x \<in> ?I" and cp: "current \<in> ?par x" by blast+
      from mem x b have "?par x \<subseteq> set out" by simp
      with cp cur_out show False by auto
    qed
    ultimately show ?thesis using dist unfolding q' by auto
  qed
  have 2: "set ((out @ [current]) @ q') \<subseteq> ?I"
    using sub cs_I unfolding q' by auto
  have 4: "\<forall>x \<in> ?I. x \<in> set ((out @ [current]) @ q') \<longleftrightarrow> ?par x \<subseteq> set (out @ [current])"
  proof
    fix x assume x: "x \<in> ?I"
    have "x \<in> set ((out @ [current]) @ q') \<longleftrightarrow>
        x \<in> set (out @ current # rest) \<or> x \<in> set (filter (\<lambda>c. deg_of deg c - 1 = 0) ?cs)"
      unfolding q' by auto
    also have "\<dots> \<longleftrightarrow> ?par x \<subseteq> set out \<or>
        (current \<in> ?par x \<and> ?par x \<subseteq> set (out @ [current]))"
      using mem x new_iff[of x] by blast
    also have "\<dots> \<longleftrightarrow> ?par x \<subseteq> set (out @ [current])" by auto
    finally show "x \<in> set ((out @ [current]) @ q') \<longleftrightarrow> ?par x \<subseteq> set (out @ [current])" .
  qed
  have 5: "\<forall>ys x zs. out @ [current] = ys @ x # zs \<longrightarrow> ?par x \<subseteq> set ys"
  proof (intro allI impI)
    fix ys x zs assume e: "out @ [current] = ys @ x # zs"
    show "?par x \<subseteq> set ys"
    proof (cases zs rule: rev_cases)
      case Nil
      with e have "ys = out" "x = current" by auto
      with cur_par show ?thesis by simp
    next
      case (snoc zs' z)
      with e have "out = ys @ x # zs'" by auto
      with topo show ?thesis by blast
    qed
  qed
  show ?thesis unfolding kahn_inv_def
    by (rule conjI[OF 1 conjI[OF 2 conjI[OF degs' conjI[OF 4 5]]]])
qed

declare Traverse_loop.simps [simp del]

lemma Traverse_loop_inv:
  "wf_dag d \<Longrightarrow> h = heap d \<Longrightarrow> kahn_inv d queue deg out \<Longrightarrow>
     \<exists>deg'. kahn_inv d [] deg' (Traverse_loop fmtv h queue deg out)"
proof (induction fmtv h queue deg out rule: Traverse_loop.induct)
  case (1 fmtv h inDegree sorted_nodes)
  then show ?case by (auto simp: Traverse_loop.simps(1))
next
  case (2 fmtv h current queue inDegree sorted_nodes)
  obtain deg' q' where
    fold: "fold Traverse_child (Children fmtv h current) (inDegree, queue) = (deg', q')"
    by (cases "fold Traverse_child (Children fmtv h current) (inDegree, queue)")
  have inv': "kahn_inv d q' deg' (sorted_nodes @ [current])"
    using kahn_inv_step[OF 2(2) 2(4)] fold 2(3) by simp
  have "Traverse_loop fmtv h (current # queue) inDegree sorted_nodes
          = Traverse_loop fmtv h q' deg' (sorted_nodes @ [current])"
    using fold by (simp add: Traverse_loop.simps(2))
  with 2(1)[OF fold[symmetric] refl 2(2) 2(3) inv'] show ?case by simp
qed

lemma finite_edges: "finite (edges d)"
proof -
  have "edges d \<subseteq> index d \<times> (\<Union>x \<in> index d. set (children_at (heap d) x))"
    by (auto simp: edges_def)
  moreover have "finite (index d \<times> (\<Union>x \<in> index d. set (children_at (heap d) x)))"
    by (simp add: index_def)
  ultimately show ?thesis by (rule finite_subset)
qed

lemma kahn_inv_all:
  assumes wf: "wf_dag d" and inv: "kahn_inv d [] deg out"
  shows "set out = index d"
proof (rule ccontr)
  assume ne: "set out \<noteq> index d"
  from wf have cl: "closed d" and mu: "mutual d" and ac: "acyclic (edges d)"
    by (simp_all add: wf_dag_def)
  from inv have sub: "set out \<subseteq> index d"
    and mem: "\<forall>x \<in> index d. x \<in> set out \<longleftrightarrow> set (parents_at (heap d) x) \<subseteq> set out"
    by (simp_all add: kahn_inv_def)
  from ne sub obtain x where x: "x \<in> index d - set out" by auto
  have "wf (edges d)" using finite_edges ac by (rule finite_acyclic_wf)
  from wfE_min[OF this x] obtain z where z: "z \<in> index d - set out"
    and zmin: "\<And>y. (y, z) \<in> edges d \<Longrightarrow> y \<notin> index d - set out" by blast
  from z mem obtain p where p: "p \<in> set (parents_at (heap d) z)" "p \<notin> set out" by auto
  with cl z have pI: "p \<in> index d" by (auto simp: closed_def)
  with mu z p(1) have "z \<in> set (children_at (heap d) p)" by (simp add: mutual_def)
  with pI have "(p, z) \<in> edges d" by (simp add: edges_def)
  from zmin[OF this] pI p(2) show False by simp
qed

lemma position_prefix: "x \<notin> set ys \<Longrightarrow> position (ys @ x # zs) x = length ys"
  by (induction ys) (auto simp: position_def)

lemma takeWhile_shorter: "a \<in> set ys \<Longrightarrow> length (takeWhile (\<lambda>y. y \<noteq> a) ys) < length ys"
  by (induction ys) auto

lemma position_less: "a \<in> set ys \<Longrightarrow> position (ys @ zs) a < length ys"
  by (simp add: position_def takeWhile_append1 takeWhile_shorter)


lemma example_paths_reachable: "reachable fmt_int example_paths"
  unfolding example_paths_def
  by (simp del: fold_simps add: fold_simps(2)[abs_def] fold_Cons fold_Nil)
     (intro reach_AddEdge reach_AddNode reach_NewDAG)

section \<open>Idempotent node insertion\<close>

text \<open>
  Claim C8 says that for every value \<open>v\<close> two calls of \<^verbatim>\<open>AddNode(v)\<close> return the same
  node and the second call creates none. \<^verbatim>\<open>AddNode\<close> finds an existing node with the map
  lookup \<^verbatim>\<open>d.nodes[data]\<close>, which compares keys with \<^verbatim>\<open>==\<close>. With \<^verbatim>\<open>T = float64\<close> and
  the value NaN the lookup never succeeds: on the empty graph the first \<^verbatim>\<open>AddNode(NaN)\<close>
  returns a new node at address 0, the second another new node at address 1, and the map
  holds two entries.
\<close>

theorem AddNode_NaN_counterexample:
  "fst (AddNode_on float64_eq NaN NewDAG) = 0 \<and>
   fst (AddNode_on float64_eq NaN (snd (AddNode_on float64_eq NaN NewDAG))) = 1 \<and>
   nodes (snd (AddNode_on float64_eq NaN NewDAG)) = [(NaN, 0)] \<and>
   nodes (snd (AddNode_on float64_eq NaN (snd (AddNode_on float64_eq NaN NewDAG))))
     = [(NaN, 0), (NaN, 1)] \<and>
   length (heap (snd (AddNode_on float64_eq NaN (snd (AddNode_on float64_eq NaN NewDAG))))) = 2"
  by (simp add: AddNode_on_def NewDAG_def map_get_def map_set_def)

text \<open>
  Claim C8, amended. \<^verbatim>\<open>AddNode\<close> is idempotent and identity-preserving on every value
  that is equal to itself under the \<^verbatim>\<open>==\<close> of the key type, that is, on every value that
  holds no floating-point NaN: from any state, a second \<^verbatim>\<open>AddNode(v)\<close> returns the same
  node object (the same address) as the first, allocates nothing and leaves the whole
  state, the node index included, as the first call left it.
\<close>

theorem AddNode_idempotent:
  assumes "eq v v"
  shows "fst (AddNode_on eq v (snd (AddNode_on eq v d))) = fst (AddNode_on eq v d) \<and>
         snd (AddNode_on eq v (snd (AddNode_on eq v d))) = snd (AddNode_on eq v d) \<and>
         length (heap (snd (AddNode_on eq v (snd (AddNode_on eq v d)))))
           = length (heap (snd (AddNode_on eq v d))) \<and>
         nodes (snd (AddNode_on eq v (snd (AddNode_on eq v d)))) = nodes (snd (AddNode_on eq v d))"
proof (cases "map_get eq (nodes d) v")
  case None
  then have no: "\<not> (\<exists>x \<in> set (nodes d). case x of (k', _) \<Rightarrow> eq k' v)"
    by (auto simp: map_get_def find_None_iff)
  then have "find (\<lambda>(k', _). eq k' v) (nodes d @ [(v, length (heap d))])
               = Some (v, length (heap d))"
    using assms by (intro find_last_new) auto
  then have "map_get eq (nodes d @ [(v, length (heap d))]) v = Some (length (heap d))"
    by (simp add: map_get_def)
  with None show ?thesis by (simp add: AddNode_on_def Let_def map_set_fresh)
next
  case (Some n)
  then show ?thesis by (simp add: AddNode_on_def)
qed

theorem AddNode_idempotent_witness:
  "float64_eq (Number 1) (Number 1) \<and>
   fst (AddNode_on float64_eq (Number 1) NewDAG) = 0 \<and>
   fst (AddNode_on float64_eq (Number 1) (snd (AddNode_on float64_eq (Number 1) NewDAG))) = 0 \<and>
   nodes (snd (AddNode_on float64_eq (Number 1) (snd (AddNode_on float64_eq (Number 1) NewDAG))))
     = [(Number 1, 0)] \<and>
   fst (AddNode (7::int) (snd (AddNode (7::int) NewDAG))) = fst (AddNode (7::int) NewDAG) \<and>
   snd (AddNode (7::int) (snd (AddNode (7::int) NewDAG))) = snd (AddNode (7::int) NewDAG)"
proof -
  have e: "float64_eq (Number 1) (Number 1)" by simp
  have a: "AddNode_on float64_eq (Number 1) NewDAG
             = (0, \<lparr>heap = [NewNode (Number 1)], nodes = [(Number 1, 0)]\<rparr>)"
    by (simp add: AddNode_on_def NewDAG_def map_get_def map_set_def)
  have "(7::int) = 7" by simp
  from AddNode_idempotent[of float64_eq "Number 1" NewDAG, OF e]
       AddNode_idempotent[of "(=)" "7::int" NewDAG, OF this] e a
  show ?thesis by (simp add: AddNode_def)
qed

section \<open>The start node of a search\<close>

text \<open>
  Claim C10. For every value \<open>v\<close> present in the graph, \<^verbatim>\<open>HasPath(v, v)\<close> is true and
  \<^verbatim>\<open>ShortestPath(v, v)\<close> is the one-node path of \<open>v\<close>'s node, whatever edges the node
  has or lacks: both searches test the start node against the target before they look at
  any child.
\<close>

theorem self_path:
  assumes "Node v d = Some n"
  shows "HasPath fmtv v v d \<and> ShortestPath fmtv v v d = Some [n]"
  using assms
  by (simp add: Node_def HasPath_def ShortestPath_def HasPath_visit.simps ShortestPath_loop.simps)

theorem self_path_witness:
  "Node (1::int) (snd (AddNode 1 NewDAG)) = Some 0 \<and>
   children_at (heap (snd (AddNode (1::int) NewDAG))) 0 = [] \<and>
   parents_at (heap (snd (AddNode (1::int) NewDAG))) 0 = [] \<and>
   HasPath fmt_int 1 1 (snd (AddNode 1 NewDAG)) \<and>
   ShortestPath fmt_int 1 1 (snd (AddNode 1 NewDAG)) = Some [0]"
proof -
  have n: "Node (1::int) (snd (AddNode 1 NewDAG)) = Some 0"
    by (simp add: Node_def AddNode_unfold NewDAG_def)
  have "children_at (heap (snd (AddNode (1::int) NewDAG))) 0 = []"
       "parents_at (heap (snd (AddNode (1::int) NewDAG))) 0 = []"
    by (simp_all add: AddNode_unfold NewDAG_def NewNode_def children_at_def parents_at_def)
  with n self_path[OF n, of fmt_int] show ?thesis by simp
qed

section \<open>A node is its own ancestor for hasAncestor\<close>

text \<open>
  Claim C6 says that \<open>n.hasAncestor(n)\<close> is false when no cycle leads back to \<open>n\<close>.
  The code tests \<^verbatim>\<open>node == ancestor\<close> on the start node before it walks upward: in the
  graph that holds the single node 1 and no edge, node 1 has no parents and
  \<open>hasAncestor\<close> of node 1 on itself is true.
\<close>

theorem hasAncestor_self_counterexample:
  "Node (1::int) (snd (AddNode 1 NewDAG)) = Some 0 \<and>
   parents_at (heap (snd (AddNode (1::int) NewDAG))) 0 = [] \<and>
   hasAncestor fmt_int (heap (snd (AddNode (1::int) NewDAG))) 0 0"
  by (simp add: Node_def AddNode_unfold NewDAG_def NewNode_def parents_at_def hasAncestor_def
        hasAncestor_visit.simps)

text \<open>
  Claim C6, amended. For every node \<open>n\<close>, \<open>n.hasAncestor(n)\<close> is true; for a
  candidate \<open>a\<close> other than \<open>n\<close>, \<open>n.hasAncestor(a)\<close> is true exactly when \<open>a\<close> is
  met by walking upward from \<open>n\<close> through one or more parent links.
\<close>

theorem hasAncestor_self:
  "hasAncestor fmtv h n n \<and>
   (hasAncestor fmtv h n a \<longleftrightarrow> a = n \<or> (n, a) \<in> (parent_rel h)\<^sup>+)"
proof -
  have "hasAncestor fmtv h n a \<longleftrightarrow> (n, a) \<in> (parent_rel h)\<^sup>*" by (rule hasAncestor_iff)
  also have "\<dots> \<longleftrightarrow> a = n \<or> (n, a) \<in> (parent_rel h)\<^sup>+"
    by (auto simp: rtrancl_eq_or_trancl)
  finally have "hasAncestor fmtv h n a \<longleftrightarrow> a = n \<or> (n, a) \<in> (parent_rel h)\<^sup>+" .
  moreover have "hasAncestor fmtv h n n" by (simp add: hasAncestor_iff)
  ultimately show ?thesis by simp
qed

section \<open>Ancestors and Descendants of a missing value\<close>

lemma append_slice_not_nil: "append_slice s x \<noteq> None"
  by (simp add: append_slice_def split: option.splits)

lemma length_Parents: "length (Parents fmtv h n) = length (parents_at h n)"
  by (simp add: Parents_def)

lemma length_Children: "length (Children fmtv h n) = length (children_at h n)"
  by (simp add: Children_def)

declare Ancestors_visit.simps [simp del] Descendants_visit.simps [simp del]

lemma Ancestors_keeps_result:
  "snd st \<noteq> None \<Longrightarrow> snd (Ancestors_visit fmtv h n st) \<noteq> None"
  "snd st \<noteq> None \<Longrightarrow> snd (Ancestors_loop fmtv h ps st) \<noteq> None"
proof (induction fmtv h n st and fmtv h ps st rule: Ancestors_visit_Ancestors_loop.induct)
  case (1 fmtv h n st)
  then show ?case by (simp add: Ancestors_visit.simps)
next
  case (2 fmtv h st)
  then show ?case by simp
next
  case (3 fmtv h p ps visited ancestors)
  show ?case
  proof (cases "p \<in> visited")
    case True
    with 3(3) 3(4) show ?thesis by simp
  next
    case False
    have "snd (Ancestors_visit fmtv h p (insert p visited, append_slice ancestors p)) \<noteq> None"
      by (rule 3(1)[OF False]) (simp add: append_slice_not_nil)
    from 3(2)[OF False this] False show ?thesis by simp
  qed
qed

lemma Descendants_keeps_result:
  "snd st \<noteq> None \<Longrightarrow> snd (Descendants_visit fmtv h n st) \<noteq> None"
  "snd st \<noteq> None \<Longrightarrow> snd (Descendants_loop fmtv h cs st) \<noteq> None"
proof (induction fmtv h n st and fmtv h cs st rule: Descendants_visit_Descendants_loop.induct)
  case (1 fmtv h n st)
  then show ?case by (simp add: Descendants_visit.simps)
next
  case (2 fmtv h st)
  then show ?case by simp
next
  case (3 fmtv h c cs visited descendants)
  show ?case
  proof (cases "c \<in> visited")
    case True
    with 3(3) 3(4) show ?thesis by simp
  next
    case False
    have "snd (Descendants_visit fmtv h c (insert c visited, append_slice descendants c)) \<noteq> None"
      by (rule 3(1)[OF False]) (simp add: append_slice_not_nil)
    from 3(2)[OF False this] False show ?thesis by simp
  qed
qed

lemma Ancestors_visit_nil:
  "snd (Ancestors_visit fmtv h n ({}, None)) = None \<longleftrightarrow> parents_at h n = []"
proof (cases "Parents fmtv h n")
  case Nil
  with length_Parents[of fmtv h n] have "parents_at h n = []" by simp
  with Nil show ?thesis by (simp add: Ancestors_visit.simps)
next
  case (Cons p ps)
  with length_Parents[of fmtv h n] have ne: "parents_at h n \<noteq> []" by auto
  have "snd (Ancestors_visit fmtv h p ({p}, append_slice None p)) \<noteq> None"
    by (rule Ancestors_keeps_result(1)) (simp add: append_slice_not_nil)
  then have "snd (Ancestors_loop fmtv h ps (Ancestors_visit fmtv h p ({p}, append_slice None p))) \<noteq> None"
    by (rule Ancestors_keeps_result(2))
  with Cons ne show ?thesis by (simp add: Ancestors_visit.simps)
qed

lemma Descendants_visit_nil:
  "snd (Descendants_visit fmtv h n ({}, None)) = None \<longleftrightarrow> children_at h n = []"
proof (cases "Children fmtv h n")
  case Nil
  with length_Children[of fmtv h n] have "children_at h n = []" by simp
  with Nil show ?thesis by (simp add: Descendants_visit.simps)
next
  case (Cons c cs)
  with length_Children[of fmtv h n] have ne: "children_at h n \<noteq> []" by auto
  have "snd (Descendants_visit fmtv h c ({c}, append_slice None c)) \<noteq> None"
    by (rule Descendants_keeps_result(1)) (simp add: append_slice_not_nil)
  then have "snd (Descendants_loop fmtv h cs (Descendants_visit fmtv h c ({c}, append_slice None c))) \<noteq> None"
    by (rule Descendants_keeps_result(2))
  with Cons ne show ?thesis by (simp add: Descendants_visit.simps)
qed

text \<open>
  Claim C5 says that the nil result for a missing value differs from the result for a
  present value without ancestors (descendants). In the graph that holds the single node
  1, the value 1 is present and 2 is missing, and all four calls return the nil slice:
  \<^verbatim>\<open>var ancestors []*Node[T]\<close> is nil and stays nil when nothing is appended.
\<close>

theorem Ancestors_nil_counterexample:
  "Node (1::int) (snd (AddNode 1 NewDAG)) = Some 0 \<and>
   Node (2::int) (snd (AddNode 1 NewDAG)) = None \<and>
   Ancestors fmt_int 1 (snd (AddNode 1 NewDAG)) = None \<and>
   Ancestors fmt_int 2 (snd (AddNode 1 NewDAG)) = None \<and>
   Descendants fmt_int 1 (snd (AddNode 1 NewDAG)) = None \<and>
   Descendants fmt_int 2 (snd (AddNode 1 NewDAG)) = None"
  by (simp add: Node_def AddNode_unfold NewDAG_def NewNode_def Ancestors_def Descendants_def
        Parents_def Children_def parents_at_def children_at_def Ancestors_visit.simps
        Descendants_visit.simps)

text \<open>
  Claim C5, amended. For every value \<open>v\<close> not present in the graph, \<^verbatim>\<open>Ancestors(v)\<close>
  and \<^verbatim>\<open>Descendants(v)\<close> return the nil slice; for a present value whose node has no
  parents (no children) they return the nil slice as well. The result is a non-nil slice
  exactly when \<open>v\<close> is present and its node has at least one parent (child).
\<close>

theorem Ancestors_nil:
  "(Ancestors fmtv v d = None) =
     (case Node v d of None \<Rightarrow> True | Some n \<Rightarrow> parents_at (heap d) n = []) \<and>
   (Descendants fmtv v d = None) =
     (case Node v d of None \<Rightarrow> True | Some n \<Rightarrow> children_at (heap d) n = [])"
  by (simp add: Ancestors_def Descendants_def Node_def Ancestors_visit_nil
        Descendants_visit_nil split: option.splits)

section \<open>Mutual parent and child links\<close>

text \<open>
  Claim C3. In every reachable state, for all nodes \<open>x\<close> and \<open>y\<close> owned by the graph,
  \<open>y\<close> is a child of \<open>x\<close> if and only if \<open>x\<close> is a parent of \<open>y\<close>; and the state
  after any further \<^verbatim>\<open>AddNode\<close>, \<^verbatim>\<open>AddEdge\<close>, \<^verbatim>\<open>RemoveNode\<close>, \<^verbatim>\<open>RemoveEdge\<close> or
  \<^verbatim>\<open>Clear\<close> has the same property.
\<close>

theorem mutuality:
  assumes "reachable fmtv d"
  shows "mutual d \<and> mutual (snd (AddNode v d)) \<and> mutual (snd (AddEdge fmtv from to d)) \<and>
         mutual (RemoveNode w d) \<and> mutual (RemoveEdge from' to' d) \<and> mutual (Clear d)"
proof -
  have m: "\<And>d'. reachable fmtv d' \<Longrightarrow> mutual d'"
    using reachable_wf_dag by (auto simp: wf_dag_def)
  show ?thesis
    using assms
    by (intro conjI m reach_AddNode reach_AddEdge reach_RemoveNode reach_RemoveEdge reach_Clear)
qed

theorem mutuality_witness:
  "reachable fmt_int example_1_2 \<and> mutual example_1_2 \<and>
   mutual (snd (AddNode 3 example_1_2)) \<and> mutual (snd (AddEdge fmt_int 2 3 example_1_2)) \<and>
   mutual (RemoveNode 1 example_1_2) \<and> mutual (RemoveEdge 1 2 example_1_2) \<and>
   mutual (Clear example_1_2) \<and>
   index example_1_2 = {0, 1} \<and>
   children_at (heap example_1_2) 0 = [1] \<and> parents_at (heap example_1_2) 1 = [0]"
proof -
  have "index example_1_2 = {0, 1}"
    "children_at (heap example_1_2) 0 = [1]" "parents_at (heap example_1_2) 1 = [0]"
    by (auto simp: example_1_2_eq index_def children_at_def parents_at_def)
  with mutuality[OF example_1_2_reachable, of 3 2 3 1 1 2] example_1_2_reachable
  show ?thesis by simp
qed

section \<open>Removal cascades\<close>

lemma RemoveNode_absent: "Node v d = None \<Longrightarrow> RemoveNode v d = d"
  by (simp add: RemoveNode_def Node_def)

lemma RemoveNode_index:
  assumes "index_ok d" and "Node v d = Some n"
  shows "index (RemoveNode v d) = index d - {n}"
  using index_delete[OF assms(1), of v n] assms(2)
  by (simp add: RemoveNode_def Node_def index_def Let_def)

lemma RemoveNode_Node: "Node v (RemoveNode v d) = None"
  by (cases "map_of (nodes d) v") (simp_all add: RemoveNode_def Node_def Let_def delete_conv')

text \<open>
  Claim C9. In every reachable state, if \<open>v\<close> is present with node \<open>n\<close>, then after
  \<^verbatim>\<open>RemoveNode(v)\<close> the lookup \<^verbatim>\<open>Node(v)\<close> is absent, \<open>n\<close> is no longer owned by the
  graph and \<open>n\<close> occurs in the parent set and the child set of no remaining node; if \<open>v\<close>
  is not present, \<^verbatim>\<open>RemoveNode(v)\<close> leaves the state as it is. \<^verbatim>\<open>RemoveNode\<close> has no
  error result.
\<close>

theorem RemoveNode_cascade:
  assumes "reachable fmtv d"
  shows "(Node v d = Some n \<longrightarrow>
            Node v (RemoveNode v d) = None \<and>
            index (RemoveNode v d) = index d - {n} \<and>
            (\<forall>a \<in> index (RemoveNode v d).
                n \<notin> set (parents_at (heap (RemoveNode v d)) a) \<and>
                n \<notin> set (children_at (heap (RemoveNode v d)) a))) \<and>
         (Node v d = None \<longrightarrow> RemoveNode v d = d)"
proof (intro conjI impI)
  assume n: "Node v d = Some n"
  have wf: "wf_dag d" using assms by (rule reachable_wf_dag)
  then have ok: "index_ok d" by (simp add: wf_dag_def)
  have "wf_dag (RemoveNode v d)" using wf by (rule wf_dag_RemoveNode)
  then have cl: "closed (RemoveNode v d)" by (simp add: wf_dag_def)
  show "Node v (RemoveNode v d) = None" by (rule RemoveNode_Node)
  show idx: "index (RemoveNode v d) = index d - {n}" by (rule RemoveNode_index[OF ok n])
  show "\<forall>a \<in> index (RemoveNode v d).
          n \<notin> set (parents_at (heap (RemoveNode v d)) a) \<and>
          n \<notin> set (children_at (heap (RemoveNode v d)) a)"
    using cl unfolding closed_def idx by blast
next
  assume "Node v d = None"
  then show "RemoveNode v d = d" by (rule RemoveNode_absent)
qed

theorem RemoveNode_cascade_witness:
  "reachable fmt_int example_1_2 \<and> Node 1 example_1_2 = Some 0 \<and>
   parents_at (heap example_1_2) 1 = [0] \<and>
   Node 1 (RemoveNode 1 example_1_2) = None \<and>
   index (RemoveNode 1 example_1_2) = {1} \<and>
   parents_at (heap (RemoveNode 1 example_1_2)) 1 = [] \<and>
   children_at (heap (RemoveNode 1 example_1_2)) 1 = [] \<and>
   Node 5 example_1_2 = None \<and> RemoveNode 5 example_1_2 = example_1_2"
proof -
  have a: "Node 1 example_1_2 = Some 0" "Node 5 example_1_2 = None"
    "parents_at (heap example_1_2) 1 = [0]" "index example_1_2 = {0, 1}"
    by (auto simp: example_1_2_eq Node_def parents_at_def index_def)
  have b: "parents_at (heap (RemoveNode 1 example_1_2)) 1 = []"
    "children_at (heap (RemoveNode 1 example_1_2)) 1 = []"
    by (simp_all add: example_1_2_eq RemoveNode_def parents_at_def children_at_def
          deleteChild_def deleteParent_def)
  from RemoveNode_cascade[OF example_1_2_reachable, of 1 0]
       RemoveNode_cascade[OF example_1_2_reachable, of 5 0] a b example_1_2_reachable
  show ?thesis by auto
qed


section \<open>When AddEdge fails\<close>

lemma parent_rel_AddNode [simp]: "parent_rel (heap (snd (AddNode v d))) = parent_rel (heap d)"
  by (simp add: parent_rel_def)

lemma AddNode_fst_fresh: "Node v d = None \<Longrightarrow> fst (AddNode v d) = length (heap d)"
  by (simp add: Node_def AddNode_fresh)

lemma AddNode_Node_present: "Node v d = Some n \<Longrightarrow> AddNode v d = (n, d)"
  by (simp add: Node_def AddNode_present)

lemma AddNode_twice: "AddNode v (snd (AddNode v d)) = AddNode v d"
  using AddNode_Node[of v d] by (simp add: AddNode_Node_present)

lemma parent_rel_index:
  assumes "closed d" and "(x, y) \<in> (parent_rel (heap d))\<^sup>*" and "x \<in> index d"
  shows "y \<in> index d"
  using assms(2,3)
proof (induction rule: rtrancl_induct)
  case base
  then show ?case by simp
next
  case (step y z)
  then have "y \<in> index d" by simp
  with assms(1) step(2) show ?case by (auto simp: closed_def parent_rel_def)
qed

lemma parent_rel_lt: "(x, y) \<in> parent_rel h \<Longrightarrow> x < length h"
  by (auto simp: parent_rel_def parents_at_def split: if_splits)

lemma AddEdge_fails_iff:
  assumes wf: "wf_dag d"
  shows "fst (AddEdge fmtv from to d) = Some ErrCycleDetected \<longleftrightarrow>
           from = to \<or> ancestor_of d to from"
proof -
  let ?d1 = "snd (AddNode from d)" and ?f = "fst (AddNode from d)"
  let ?d2 = "snd (AddNode to ?d1)" and ?t = "fst (AddNode to ?d1)"
  let ?R = "parent_rel (heap d)"
  from wf have ok: "index_ok d" and cl: "closed d" by (simp_all add: wf_dag_def)
  have wf2: "wf_dag ?d2" using wf by (simp add: wf_dag_AddNode)
  then have ok2: "index_ok ?d2" by (simp add: wf_dag_def)
  have nf: "Node from ?d2 = Some ?f" by (rule AddNode_keeps_Node[OF AddNode_Node])
  have nt: "Node to ?d2 = Some ?t" by (rule AddNode_Node)
  have fails: "fst (AddEdge fmtv from to d) = Some ErrCycleDetected \<longleftrightarrow> (?f, ?t) \<in> ?R\<^sup>*"
    by (simp add: AddEdge_unfold Let_def hasAncestor_iff)
  show ?thesis
  proof
    assume "fst (AddEdge fmtv from to d) = Some ErrCycleDetected"
    with fails have r: "(?f, ?t) \<in> ?R\<^sup>*" by simp
    show "from = to \<or> ancestor_of d to from"
    proof (cases "from = to")
      case True
      then show ?thesis by simp
    next
      case False
      with Node_inj[OF ok2 nf] nt have "?f \<noteq> ?t" by auto
      with r have rp: "(?f, ?t) \<in> ?R\<^sup>+" by (auto simp: rtrancl_eq_or_trancl)
      then obtain z where "(?f, z) \<in> ?R" by (auto dest: tranclD)
      then have "?f < length (heap d)" by (rule parent_rel_lt)
      then have "Node from d \<noteq> None" using AddNode_fst_fresh[of "from" d] by auto
      then obtain f where f: "Node from d = Some f" by auto
      then have f_eq: "?f = f" and d1: "?d1 = d" by (simp_all add: AddNode_Node_present)
      have "f \<in> index d" using f by (rule Node_index)
      with parent_rel_index[OF cl r] f_eq have "?t \<in> index d" by simp
      then have "?t < length (heap d)" by (rule index_lt[OF ok])
      then have "Node to d \<noteq> None" using AddNode_fst_fresh[of to d] d1 by auto
      then obtain t where t: "Node to d = Some t" by auto
      then have "?t = t" using d1 by (simp add: AddNode_Node_present)
      with rp f_eq f t have "ancestor_of d to from" by (auto simp: ancestor_of_def)
      then show ?thesis by simp
    qed
  next
    assume "from = to \<or> ancestor_of d to from"
    then have "(?f, ?t) \<in> ?R\<^sup>*"
    proof
      assume "from = to"
      then have "?f = ?t" by (simp add: AddNode_twice)
      then show ?thesis by simp
    next
      assume "ancestor_of d to from"
      then obtain x y where "Node to d = Some x" "Node from d = Some y" "(y, x) \<in> ?R\<^sup>+"
        by (auto simp: ancestor_of_def)
      then show ?thesis by (simp add: AddNode_Node_present)
    qed
    with fails show "fst (AddEdge fmtv from to d) = Some ErrCycleDetected" by simp
  qed
qed

lemma AddEdge_fails_state:
  "fst (AddEdge fmtv from to d) = Some ErrCycleDetected \<Longrightarrow>
   snd (AddEdge fmtv from to d) = snd (AddNode to (snd (AddNode from d)))"
  by (simp add: AddEdge_unfold Let_def split: if_splits)

text \<open>
  Claim C2 says that a failing \<^verbatim>\<open>AddEdge\<close> leaves the node set as it was.
  \<^verbatim>\<open>AddEdge\<close> calls \<^verbatim>\<open>AddNode\<close> for both endpoints before the cycle check: on the empty
  graph \<^verbatim>\<open>AddEdge(1, 1)\<close> fails with CycleDetected, and the value 1, absent before,
  has a node afterwards.
\<close>

theorem AddEdge_failure_adds_node_counterexample:
  "fst (AddEdge fmt_int 1 1 NewDAG) = Some ErrCycleDetected \<and>
   Node 1 NewDAG = None \<and> nodes NewDAG = [] \<and>
   Node 1 (snd (AddEdge fmt_int 1 1 NewDAG)) = Some 0 \<and>
   nodes (snd (AddEdge fmt_int 1 1 NewDAG)) = [(1, 0)]"
  by (simp add: AddEdge_def AddNode_unfold NewDAG_def Node_def hasAncestor_def
        hasAncestor_visit.simps)

text \<open>
  Claim C2, amended. Whenever \<^verbatim>\<open>AddEdge(from, to)\<close> fails with CycleDetected in a
  reachable state, no parent set and no child set has changed, and the state is the state
  before the call, except when \<open>from = to\<close> and the value was absent: then the state is
  the one \<^verbatim>\<open>AddNode(from)\<close> alone produces, with one new node without neighbours.
\<close>

theorem AddEdge_failure_state:
  assumes "reachable fmtv d" and "fst (AddEdge fmtv from to d) = Some ErrCycleDetected"
  shows "snd (AddEdge fmtv from to d) =
           (if from = to \<and> Node from d = None then snd (AddNode from d) else d) \<and>
         parents_at (heap (snd (AddEdge fmtv from to d))) a = parents_at (heap d) a \<and>
         children_at (heap (snd (AddEdge fmtv from to d))) a = children_at (heap d) a"
proof -
  have wf: "wf_dag d" using assms(1) by (rule reachable_wf_dag)
  have st: "snd (AddEdge fmtv from to d) = snd (AddNode to (snd (AddNode from d)))"
    using assms(2) by (rule AddEdge_fails_state)
  have "snd (AddNode to (snd (AddNode from d))) =
          (if from = to \<and> Node from d = None then snd (AddNode from d) else d)"
  proof (cases "from = to")
    case True
    then show ?thesis by (cases "Node from d") (auto simp: AddNode_twice AddNode_Node_present)
  next
    case False
    with AddEdge_fails_iff[OF wf, of fmtv "from" to] assms(2)
    have "ancestor_of d to from" by simp
    then obtain x y where "Node to d = Some x" "Node from d = Some y"
      by (auto simp: ancestor_of_def)
    with False show ?thesis by (simp add: AddNode_Node_present)
  qed
  with st show ?thesis by simp
qed

theorem AddEdge_failure_state_witness:
  "reachable fmt_int example_1_2 \<and>
   fst (AddEdge fmt_int 2 1 example_1_2) = Some ErrCycleDetected \<and>
   snd (AddEdge fmt_int 2 1 example_1_2) = example_1_2 \<and>
   reachable fmt_int NewDAG \<and>
   fst (AddEdge fmt_int 1 1 NewDAG) = Some ErrCycleDetected \<and>
   snd (AddEdge fmt_int 1 1 NewDAG) = snd (AddNode 1 NewDAG)"
proof -
  have a: "fst (AddEdge fmt_int 2 1 example_1_2) = Some ErrCycleDetected"
    by (simp add: example_1_2_eq AddEdge_def AddNode_unfold hasAncestor_def
        hasAncestor_visit.simps hasAncestor_loop.simps Parents_def parents_at_def)
  have b: "fst (AddEdge fmt_int 1 1 NewDAG) = Some ErrCycleDetected"
    by (simp add: AddEdge_def AddNode_unfold NewDAG_def hasAncestor_def hasAncestor_visit.simps)
  have c: "Node 1 (NewDAG :: int dag) = None" by (simp add: Node_def NewDAG_def)
  from AddEdge_failure_state[OF example_1_2_reachable a, of 0]
       AddEdge_failure_state[OF reach_NewDAG b, of 0] a b c example_1_2_reachable
  show ?thesis by (simp add: reach_NewDAG)
qed

section \<open>The cycle check of AddEdge\<close>

text \<open>
  Claim C1 says that \<^verbatim>\<open>AddEdge(from, to)\<close> fails exactly when \<open>to\<close> has \<open>from\<close> as an
  ancestor. The code asks the converse question, \<^verbatim>\<open>fromNode.hasAncestor(toNode)\<close>. In
  the graph with the single edge from 1 to 2, the value 2 has 1 as an ancestor and
  \<^verbatim>\<open>AddEdge(1, 2)\<close> succeeds, while 1 does not have 2 as an ancestor and
  \<^verbatim>\<open>AddEdge(2, 1)\<close> fails.
\<close>

theorem AddEdge_direction_counterexample:
  "ancestor_of example_1_2 1 2 \<and> fst (AddEdge fmt_int 1 2 example_1_2) = None \<and>
   \<not> ancestor_of example_1_2 2 1 \<and>
   fst (AddEdge fmt_int 2 1 example_1_2) = Some ErrCycleDetected"
proof -
  have n: "Node 1 example_1_2 = Some 0" "Node 2 example_1_2 = Some 1"
    by (simp_all add: example_1_2_eq Node_def)
  have "(1, 0) \<in> parent_rel (heap example_1_2)"
    by (simp add: example_1_2_eq parent_rel_def parents_at_def)
  then have "(1, 0) \<in> (parent_rel (heap example_1_2))\<^sup>+" by (rule r_into_trancl)
  with n have a: "ancestor_of example_1_2 1 2" by (auto simp: ancestor_of_def)
  have "\<And>z. (0, z) \<notin> parent_rel (heap example_1_2)"
    by (simp add: example_1_2_eq parent_rel_def parents_at_def)
  then have "(0, 1) \<notin> (parent_rel (heap example_1_2))\<^sup>+" by (auto dest: tranclD)
  with n have b: "\<not> ancestor_of example_1_2 2 1" by (auto simp: ancestor_of_def)
  have c: "fst (AddEdge fmt_int 1 2 example_1_2) = None"
    "fst (AddEdge fmt_int 2 1 example_1_2) = Some ErrCycleDetected"
    by (simp_all add: example_1_2_eq AddEdge_def AddNode_unfold hasAncestor_def
        hasAncestor_visit.simps hasAncestor_loop.simps Parents_def parents_at_def)
  from a b c show ?thesis by simp
qed

text \<open>
  Claim C1, amended. In every reachable state and for all values \<open>from\<close> and \<open>to\<close>,
  \<^verbatim>\<open>AddEdge(from, to)\<close> fails with CycleDetected if and only if \<open>from = to\<close> or, at the
  moment of the call, \<open>from\<close> already has \<open>to\<close> as an ancestor. In every other case it
  returns the nil error, and afterwards both values have nodes, the node of \<open>to\<close> is a
  child of the node of \<open>from\<close>, and the node of \<open>from\<close> is a parent of the node of \<open>to\<close>.
\<close>

theorem AddEdge_cycle_check:
  assumes "reachable fmtv d"
  shows "(fst (AddEdge fmtv from to d) = Some ErrCycleDetected) =
           (from = to \<or> ancestor_of d to from) \<and>
         (fst (AddEdge fmtv from to d) \<noteq> Some ErrCycleDetected \<longrightarrow>
            fst (AddEdge fmtv from to d) = None \<and>
            (\<exists>f t. Node from (snd (AddEdge fmtv from to d)) = Some f \<and>
                   Node to (snd (AddEdge fmtv from to d)) = Some t \<and>
                   t \<in> set (children_at (heap (snd (AddEdge fmtv from to d))) f) \<and>
                   f \<in> set (parents_at (heap (snd (AddEdge fmtv from to d))) t)))"
proof (intro conjI impI)
  have wf: "wf_dag d" using assms by (rule reachable_wf_dag)
  show "(fst (AddEdge fmtv from to d) = Some ErrCycleDetected) =
           (from = to \<or> ancestor_of d to from)"
    by (rule AddEdge_fails_iff[OF wf])
  let ?d2 = "snd (AddNode to (snd (AddNode from d)))"
  let ?f = "fst (AddNode from d)" and ?t = "fst (AddNode to (snd (AddNode from d)))"
  assume ok: "fst (AddEdge fmtv from to d) \<noteq> Some ErrCycleDetected"
  then have no: "\<not> hasAncestor fmtv (heap ?d2) ?f ?t"
    by (auto simp: AddEdge_unfold Let_def)
  then show "fst (AddEdge fmtv from to d) = None" by (simp add: AddEdge_unfold Let_def)
  have wf2: "wf_dag ?d2" using wf by (simp add: wf_dag_AddNode)
  then have ok2: "index_ok ?d2" by (simp add: wf_dag_def)
  have nf: "Node from ?d2 = Some ?f" by (rule AddNode_keeps_Node[OF AddNode_Node])
  have nt: "Node to ?d2 = Some ?t" by (rule AddNode_Node)
  have fl: "?f < length (heap ?d2)" and tl: "?t < length (heap ?d2)"
    using index_lt[OF ok2] Node_index[OF nf] Node_index[OF nt] by auto
  have st: "snd (AddEdge fmtv from to d) =
              ?d2\<lparr>heap := addParent ?t ?f (addChild ?f ?t (heap ?d2))\<rparr>"
    using no by (simp add: AddEdge_unfold Let_def)
  have "Node from (snd (AddEdge fmtv from to d)) = Some ?f"
       "Node to (snd (AddEdge fmtv from to d)) = Some ?t"
    using nf nt by (simp_all add: st Node_def)
  moreover have "?t \<in> set (children_at (heap (snd (AddEdge fmtv from to d))) ?f)"
    using fl by (simp add: st children_at_addChild)
  moreover have "?f \<in> set (parents_at (heap (snd (AddEdge fmtv from to d))) ?t)"
    using tl by (simp add: st parents_at_addParent)
  ultimately show "\<exists>f t. Node from (snd (AddEdge fmtv from to d)) = Some f \<and>
                   Node to (snd (AddEdge fmtv from to d)) = Some t \<and>
                   t \<in> set (children_at (heap (snd (AddEdge fmtv from to d))) f) \<and>
                   f \<in> set (parents_at (heap (snd (AddEdge fmtv from to d))) t)"
    by blast
qed

theorem AddEdge_cycle_check_witness:
  "reachable fmt_int example_1_2 \<and>
   fst (AddEdge fmt_int 2 1 example_1_2) = Some ErrCycleDetected \<and>
   ancestor_of example_1_2 1 2 \<and>
   fst (AddEdge fmt_int 2 3 example_1_2) = None \<and>
   Node 2 (snd (AddEdge fmt_int 2 3 example_1_2)) = Some 1 \<and>
   Node 3 (snd (AddEdge fmt_int 2 3 example_1_2)) = Some 2 \<and>
   children_at (heap (snd (AddEdge fmt_int 2 3 example_1_2))) 1 = [2] \<and>
   parents_at (heap (snd (AddEdge fmt_int 2 3 example_1_2))) 2 = [1]"
proof -
  have a: "fst (AddEdge fmt_int 2 1 example_1_2) = Some ErrCycleDetected"
    by (simp add: example_1_2_eq AddEdge_def AddNode_unfold hasAncestor_def
        hasAncestor_visit.simps hasAncestor_loop.simps Parents_def parents_at_def)
  have b: "AddEdge fmt_int 2 3 example_1_2 =
      (None, \<lparr>heap = [\<lparr>data = 1, parents = [], children = [1]\<rparr>,
                       \<lparr>data = 2, parents = [0], children = [2]\<rparr>,
                       \<lparr>data = 3, parents = [1], children = []\<rparr>],
               nodes = [(1, 0), (2, 1), (3, 2)]\<rparr>)"
    by (simp add: example_1_2_eq AddEdge_def AddNode_unfold NewNode_def hasAncestor_def
        hasAncestor_visit.simps hasAncestor_loop.simps Parents_def parents_at_def
        addChild_def addParent_def)
  have c: "ancestor_of example_1_2 1 2"
    using AddEdge_cycle_check[OF example_1_2_reachable, of 2 1] a by simp
  from a b c example_1_2_reachable show ?thesis
    by (simp add: Node_def children_at_def parents_at_def)
qed

section \<open>Shortest paths\<close>

text \<open>
  Claim C7. For all values \<open>from\<close> and \<open>to\<close>, \<^verbatim>\<open>ShortestPath(from, to)\<close> is nil when
  an endpoint is missing or no directed path leads from \<open>from\<close> to \<open>to\<close>; otherwise it is
  a directed path from \<open>from\<close> to \<open>to\<close>, and no directed path between them has fewer
  nodes, hence none has fewer edges. In the graph of the test, \<^verbatim>\<open>ShortestPath(1, 5)\<close> is
  the node sequence 1, 2, 5 and \<^verbatim>\<open>ShortestPath(1, 7)\<close> is nil.
\<close>

theorem ShortestPath_shortest:
  "(case (Node from d, Node to d) of
      (Some f, Some t) \<Rightarrow>
        (if \<exists>q. is_path (heap d) q f t
         then \<exists>p. ShortestPath fmtv from to d = Some p \<and> is_path (heap d) p f t \<and>
                  (\<forall>q. is_path (heap d) q f t \<longrightarrow> length p \<le> length q)
         else ShortestPath fmtv from to d = None)
    | _ \<Rightarrow> ShortestPath fmtv from to d = None) \<and>
   map_option (path_data example_paths) (ShortestPath fmt_int 1 5 example_paths) = Some [1, 2, 5] \<and>
   ShortestPath fmt_int 1 7 example_paths = None"
proof (intro conjI)
  show "case (Node from d, Node to d) of
      (Some f, Some t) \<Rightarrow>
        (if \<exists>q. is_path (heap d) q f t
         then \<exists>p. ShortestPath fmtv from to d = Some p \<and> is_path (heap d) p f t \<and>
                  (\<forall>q. is_path (heap d) q f t \<longrightarrow> length p \<le> length q)
         else ShortestPath fmtv from to d = None)
    | _ \<Rightarrow> ShortestPath fmtv from to d = None"
  proof (cases "Node from d")
    case None
    then show ?thesis by (simp add: Node_def ShortestPath_def)
  next
    case f: (Some f)
    show ?thesis
    proof (cases "Node to d")
      case None
      with f show ?thesis by (simp add: Node_def ShortestPath_def)
    next
      case t: (Some t)
      have sp: "ShortestPath fmtv from to d = ShortestPath_loop fmtv (heap d) t [(f, [f])] {f}"
        using f t by (simp add: Node_def ShortestPath_def)
      from ShortestPath_loop_correct[OF sp_inv_init, of "heap d" f t fmtv]
      show ?thesis unfolding sp[symmetric] using f t
        by (cases "ShortestPath fmtv from to d") auto
    qed
  qed
  show "map_option (path_data example_paths) (ShortestPath fmt_int 1 5 example_paths) = Some [1, 2, 5]"
    by (simp add: example_paths_1_5) (simp add: example_paths_eq path_data_def)
  show "ShortestPath fmt_int 1 7 example_paths = None" by (rule example_paths_1_7)
qed

theorem ShortestPath_shortest_witness:
  "Node 1 example_paths = Some 0 \<and> Node 3 example_paths = Some 2 \<and>
   is_path (heap example_paths) [0, 3, 2] 0 2 \<and>
   (\<exists>p. ShortestPath fmt_int 1 3 example_paths = Some p \<and> is_path (heap example_paths) p 0 2 \<and>
        length p \<le> 3) \<and>
   Node 9 example_paths = None \<and> ShortestPath fmt_int 9 1 example_paths = None"
proof -
  have n: "Node 1 example_paths = Some 0" "Node 3 example_paths = Some 2"
    "Node 9 example_paths = None"
    by (simp_all add: example_paths_eq Node_def)
  have p: "is_path (heap example_paths) [0, 3, 2] 0 2"
    by (simp add: example_paths_eq is_path_def children_at_def)
  have ex: "\<exists>q. is_path (heap example_paths) q 0 2" using p by blast
  from ShortestPath_shortest[where ?from = 1 and d = example_paths and ?to = 3 and fmtv = fmt_int] n ex
  have "\<exists>p. ShortestPath fmt_int 1 3 example_paths = Some p \<and> is_path (heap example_paths) p 0 2 \<and>
        (\<forall>q. is_path (heap example_paths) q 0 2 \<longrightarrow> length p \<le> length q)"
    by simp
  with p have "\<exists>p. ShortestPath fmt_int 1 3 example_paths = Some p \<and>
      is_path (heap example_paths) p 0 2 \<and> length p \<le> 3"
    by fastforce
  moreover from ShortestPath_shortest[where ?from = 9 and d = example_paths and ?to = 1 and fmtv = fmt_int] n
  have "ShortestPath fmt_int 9 1 example_paths = None" by simp
  ultimately show ?thesis using n p by simp
qed

section \<open>Topological order\<close>

text \<open>
  Claim C4. For every reachable graph, whatever the order in which \<^verbatim>\<open>range\<close> yields the
  keys of \<^verbatim>\<open>inDegree\<close>, the sequence returned by \<^verbatim>\<open>Traverse()\<close> holds every node of
  the graph exactly once, and for every edge from \<open>a\<close> to \<open>b\<close> of the graph it places
  \<open>a\<close> strictly before \<open>b\<close>.
\<close>

theorem Traverse_topological:
  assumes "reachable fmtv d" and "distinct order"
    and "set order = dom (inDegree_init (heap d) (nodes d))"
  shows "distinct (Traverse fmtv order d) \<and> set (Traverse fmtv order d) = index d \<and>
         (\<forall>a b. (a, b) \<in> edges d \<longrightarrow>
            position (Traverse fmtv order d) a < position (Traverse fmtv order d) b)"
proof -
  let ?out = "Traverse fmtv order d"
  have wf: "wf_dag d" using assms(1) by (rule reachable_wf_dag)
  then have cl: "closed d" and mu: "mutual d" by (simp_all add: wf_dag_def)
  have ord: "set order = index d" using assms(3) by (simp add: dom_inDegree_init)
  from Traverse_loop_inv[OF wf refl kahn_inv_init[OF wf assms(2) ord], of fmtv]
  obtain deg' where inv: "kahn_inv d [] deg' ?out" by (auto simp: Traverse_def Let_def)
  then have dist: "distinct ?out"
    and topo: "\<forall>ys x zs. ?out = ys @ x # zs \<longrightarrow> set (parents_at (heap d) x) \<subseteq> set ys"
    by (simp_all add: kahn_inv_def)
  have all: "set ?out = index d" using wf inv by (rule kahn_inv_all)
  have "\<forall>a b. (a, b) \<in> edges d \<longrightarrow> position ?out a < position ?out b"
  proof (intro allI impI)
    fix a b assume "(a, b) \<in> edges d"
    then have a: "a \<in> index d" and ab: "b \<in> set (children_at (heap d) a)"
      by (simp_all add: edges_def)
    with cl have b: "b \<in> index d" by (auto simp: closed_def)
    with mu a ab have pa: "a \<in> set (parents_at (heap d) b)" by (simp add: mutual_def)
    from b all have "b \<in> set ?out" by simp
    then obtain ys zs where split: "?out = ys @ b # zs"
      by (auto dest: split_list)
    with topo pa have "a \<in> set ys" by blast
    then have "position (ys @ b # zs) a < length ys" by (rule position_less)
    moreover have "b \<notin> set ys" using dist split by (metis distinct_append not_distinct_conv_prefix)
    then have "position (ys @ b # zs) b = length ys" by (rule position_prefix)
    ultimately show "position ?out a < position ?out b" using split by simp
  qed
  with dist all show ?thesis by simp
qed


theorem Traverse_topological_witness:
  "reachable fmt_int example_paths \<and> distinct [6, 5, 4, 3, 2, 1, 0 :: addr] \<and>
   set [6, 5, 4, 3, 2, 1, 0] = dom (inDegree_init (heap example_paths) (nodes example_paths)) \<and>
   Traverse fmt_int [6, 5, 4, 3, 2, 1, 0] example_paths = [5, 0, 6, 1, 3, 4, 2] \<and>
   path_data example_paths (Traverse fmt_int [6, 5, 4, 3, 2, 1, 0] example_paths)
     = [6, 1, 7, 2, 4, 5, 3] \<and>
   index example_paths = {0, 1, 2, 3, 4, 5, 6} \<and>
   (3, 2) \<in> edges example_paths \<and>
   position (Traverse fmt_int [6, 5, 4, 3, 2, 1, 0] example_paths) 3
     < position (Traverse fmt_int [6, 5, 4, 3, 2, 1, 0] example_paths) 2"
proof -
  have idx: "index example_paths = {0, 1, 2, 3, 4, 5, 6}"
    by (auto simp: example_paths_eq index_def)
  have o: "set [6, 5, 4, 3, 2, 1, 0] = dom (inDegree_init (heap example_paths) (nodes example_paths))"
    unfolding dom_inDegree_init idx by auto
  have dist: "distinct [6, 5, 4, 3, 2, 1, 0 :: addr]" by simp
  have e: "(3, 2) \<in> edges example_paths"
    by (simp add: edges_def idx) (simp add: example_paths_eq children_at_def)
  have t: "Traverse fmt_int [6, 5, 4, 3, 2, 1, 0] example_paths = [5, 0, 6, 1, 3, 4, 2]"
    unfolding example_paths_eq by code_simp
  have pd: "path_data example_paths [5, 0, 6, 1, 3, 4, 2] = [6, 1, 7, 2, 4, 5, 3]"
    by (simp add: example_paths_eq path_data_def)
  from Traverse_topological[OF example_paths_reachable dist o] e
  have "position (Traverse fmt_int [6, 5, 4, 3, 2, 1, 0] example_paths) 3
     < position (Traverse fmt_int [6, 5, 4, 3, 2, 1, 0] example_paths) 2"
    by blast
  with example_paths_reachable dist o t pd idx e show ?thesis by simp
qed

end
